theory Spec2Isabelle
  imports Complex_Main "HOL-Library.Word" "HOL-Library.Product_Lexorder" "HOL-Library.Multiset"
    "HOL-Library.Log_Nat"
begin

section \<open>Results and failures\<close>

text \<open>
  The three \<^verbatim>\<open>assert\<close>s at the head of \<^verbatim>\<open>lineRankOrderFilter1D\<close>, compiled in (no
  \<^verbatim>\<open>NDEBUG\<close>), are the reported failures. Two further failures are kept apart from
  them: \<open>LengthError\<close>, which \<^verbatim>\<open>std::deque\<close>'s constructor throws for a size above
  its \<^verbatim>\<open>max_size()\<close>, and \<open>OutOfRange\<close>, which stands for every access the C++ leaves
  undefined (an index or pointer past the end, an iterator that is singular,
  past-the-end, erased, or moved before \<^verbatim>\<open>begin()\<close>).
\<close>

datatype error = DestinationTooSmall | WindowTooLarge | RankOutOfRange | LengthError | OutOfRange

definition bindE :: "error + 'b \<Rightarrow> ('b \<Rightarrow> error + 'c) \<Rightarrow> error + 'c" where
  "bindE m f = (case m of Inl e \<Rightarrow> Inl e | Inr x \<Rightarrow> f x)"

section \<open>Arrays and deques\<close>

text \<open>The source and destination ranges, read and written through a position.\<close>

definition array_read :: "'b list \<Rightarrow> nat \<Rightarrow> error + 'b" where
  "array_read xs i = (if i < length xs then Inr (xs ! i) else Inl OutOfRange)"

definition array_write :: "'b list \<Rightarrow> nat \<Rightarrow> 'b \<Rightarrow> error + 'b list" where
  "array_write xs i v = (if i < length xs then Inr (xs[i := v]) else Inl OutOfRange)"

text \<open>
  \<^verbatim>\<open>std::deque\<close>. No deque is longer than \<^verbatim>\<open>max_size()\<close>, which is at most
  \<^verbatim>\<open>PTRDIFF_MAX\<close>; the constructor throws above it, and an index at or above it is past
  the end of every deque.
\<close>

definition deque_max_size :: nat where
  "deque_max_size = 2 ^ 63 - 1"

definition deque_create :: "nat \<Rightarrow> 'b \<Rightarrow> error + 'b list" where
  "deque_create n v = (if deque_max_size < n then Inl LengthError else Inr (replicate n v))"

definition deque_get :: "'b list \<Rightarrow> nat \<Rightarrow> error + 'b" where
  "deque_get xs i = (if i < length xs \<and> i < deque_max_size then Inr (xs ! i) else Inl OutOfRange)"

definition deque_set :: "'b list \<Rightarrow> nat \<Rightarrow> 'b \<Rightarrow> error + 'b list" where
  "deque_set xs i v =
     (if i < length xs \<and> i < deque_max_size then Inr (xs[i := v]) else Inl OutOfRange)"

definition deque_front :: "'b list \<Rightarrow> error + 'b" where
  "deque_front xs = (case xs of [] \<Rightarrow> Inl OutOfRange | x # _ \<Rightarrow> Inr x)"

definition deque_pop_front :: "'b list \<Rightarrow> error + 'b list" where
  "deque_pop_front xs = (case xs of [] \<Rightarrow> Inl OutOfRange | _ # r \<Rightarrow> Inr r)"

definition deque_back :: "'b list \<Rightarrow> error + 'b" where
  "deque_back xs = (if xs = [] then Inl OutOfRange else Inr (last xs))"

definition deque_pop_back :: "'b list \<Rightarrow> error + 'b list" where
  "deque_pop_back xs = (if xs = [] then Inl OutOfRange else Inr (butlast xs))"

definition deque_push_back :: "'b list \<Rightarrow> 'b \<Rightarrow> 'b list" where
  "deque_push_back xs x = xs @ [x]"

section \<open>The ordered set and its iterators\<close>

text \<open>
  \<^verbatim>\<open>boost::container::set<TC, std::less<TC>>\<close> is represented by its in-order
  traversal: a list that the operations keep ascending and free of duplicates. The
  order on \<^verbatim>\<open>std::pair\<close> is the lexicographic one. The set is node based, so an
  iterator stays with its element until that element is erased: an iterator is
  \<open>At x\<close> for the element \<open>x\<close> it points to, \<open>End\<close> for \<^verbatim>\<open>end()\<close>, and \<open>Singular\<close>
  when it was only value-initialised. Using \<open>At x\<close> once \<open>x\<close> has left the set is
  undefined.
\<close>

datatype 'b iterator = Singular | End | At 'b

definition set_insert :: "'b::linorder \<Rightarrow> 'b list \<Rightarrow> 'b list \<times> 'b iterator" where
  "set_insert x xs = (if x \<in> set xs then xs else insort x xs, At x)"

definition set_erase :: "'b::linorder iterator \<Rightarrow> 'b list \<Rightarrow> error + 'b list" where
  "set_erase it xs =
     (case it of
        At x \<Rightarrow> if x \<in> set xs then Inr (remove1 x xs) else Inl OutOfRange
      | _ \<Rightarrow> Inl OutOfRange)"

definition set_begin :: "'b list \<Rightarrow> 'b iterator" where
  "set_begin xs = (case xs of [] \<Rightarrow> End | x # _ \<Rightarrow> At x)"

definition deref :: "'b list \<Rightarrow> 'b iterator \<Rightarrow> error + 'b" where
  "deref xs it =
     (case it of
        At x \<Rightarrow> if x \<in> set xs then Inr x else Inl OutOfRange
      | _ \<Rightarrow> Inl OutOfRange)"

text \<open>\<^verbatim>\<open>++it\<close>: the least element above \<open>*it\<close>, or \<^verbatim>\<open>end()\<close> after the last one.\<close>

definition iter_incr :: "'b::linorder list \<Rightarrow> 'b iterator \<Rightarrow> error + 'b iterator" where
  "iter_incr xs it =
     (case it of
        At x \<Rightarrow>
          if x \<in> set xs
          then Inr (case filter (\<lambda>y. x < y) xs of [] \<Rightarrow> End | y # _ \<Rightarrow> At y)
          else Inl OutOfRange
      | _ \<Rightarrow> Inl OutOfRange)"

text \<open>
  \<^verbatim>\<open>--it\<close>: the greatest element below \<open>*it\<close>, the last element from \<^verbatim>\<open>end()\<close>;
  undefined at \<^verbatim>\<open>begin()\<close>.
\<close>

definition iter_decr :: "'b::linorder list \<Rightarrow> 'b iterator \<Rightarrow> error + 'b iterator" where
  "iter_decr xs it =
     (case it of
        At x \<Rightarrow>
          if x \<in> set xs
          then (case filter (\<lambda>y. y < x) xs of
                  [] \<Rightarrow> Inl OutOfRange
                | y # ys \<Rightarrow> Inr (At (last (y # ys))))
          else Inl OutOfRange
      | End \<Rightarrow> if xs = [] then Inl OutOfRange else Inr (At (last xs))
      | Singular \<Rightarrow> Inl OutOfRange)"

text \<open>\<^verbatim>\<open>std::advance(it, n)\<close> on a bidirectional iterator: \<open>n\<close> increments.\<close>

fun advance :: "'b::linorder list \<Rightarrow> 'b iterator \<Rightarrow> nat \<Rightarrow> error + 'b iterator" where
  "advance xs it 0 = Inr it"
| "advance xs it (Suc n) = bindE (iter_incr xs it) (\<lambda>it'. advance xs it' n)"

section \<open>The rank position\<close>

text \<open>
  Line 98 multiplies in IEEE binary64: \<^verbatim>\<open>length_sub_1\<close> is converted to \<^verbatim>\<open>double\<close> and
  the product with \<^verbatim>\<open>rank\<close> is rounded to the nearest \<^verbatim>\<open>double\<close>, ties to the even
  significand. A \<^verbatim>\<open>double\<close> is taken as the real number it denotes. Every \<^verbatim>\<open>double\<close>
  is a whole multiple of the least positive one, \<open>1 / 2 ^ 1074\<close>; with \<open>u\<close> the value
  in that unit, a value whose whole part has more than \<open>53\<close> bits keeps only its leading
  \<open>53\<close>, and a smaller one is rounded to a whole number of units. Overflow to infinity
  (from \<open>2 ^ 1024\<close> on) is left out: the product is computed once \<^verbatim>\<open>rank\<close> has passed
  its range check, so it is at most \<open>2 ^ 64\<close>.
\<close>

definition round_even :: "real \<Rightarrow> int" where
  "round_even y =
     (let f = \<lfloor>y\<rfloor>; d = y - of_int f
      in if d < 1 / 2 then f else if 1 / 2 < d then f + 1 else if even f then f else f + 1)"

definition round_binary :: "nat \<Rightarrow> nat \<Rightarrow> real \<Rightarrow> real" where
  "round_binary p N x =
     (let u = x * 2 ^ N; s = nat (bitlen \<lfloor>\<bar>u\<bar>\<rfloor> - int p)
      in of_int (round_even (u / 2 ^ s)) * 2 ^ s / 2 ^ N)"

definition round_double :: "real \<Rightarrow> real" where
  "round_double = round_binary 53 1074"

text \<open>The conversion of a \<^verbatim>\<open>size_t\<close> to \<^verbatim>\<open>double\<close>, and the product of two \<^verbatim>\<open>double\<close>s.\<close>

definition double_of_size :: "nat \<Rightarrow> real" where
  "double_of_size n = round_double (of_nat n)"

definition double_mul :: "real \<Rightarrow> real \<Rightarrow> real" where
  "double_mul x y = round_double (x * y)"

text \<open>
  Modelled from the spec: \<^verbatim>\<open>boost::math::round\<close>, of the Boost library, is not under
  \<^verbatim>\<open>src/\<close>. The spec has it round to the nearest integer and leaves the rule at a tie
  open between ties to even and ties away from zero; Boost documents ties away from
  zero, which is taken here.
\<close>

definition boost_round :: "real \<Rightarrow> int" where
  "boost_round v = (if v < 0 then \<lceil>v - 1 / 2\<rceil> else \<lfloor>v + 1 / 2\<rfloor>)"

text \<open>
  \<^verbatim>\<open>static_cast<size_t>(boost::math::round(rank * length_sub_1))\<close>
\<close>

definition rank_pos_of :: "real \<Rightarrow> nat \<Rightarrow> nat" where
  "rank_pos_of rank length_sub_1 =
     nat (boost_round (double_mul rank (double_of_size length_sub_1)))"

section \<open>The filter\<close>

text \<open>
  \<^verbatim>\<open>size_t\<close> is 64 bits wide. The three window lengths are computed on words; the
  counters of the loops are naturals, with the wrap-around written out where a counter
  is stepped without a bound in sight.
\<close>

definition size_incr :: "nat \<Rightarrow> nat" where
  "size_incr n = (n + 1) mod 2 ^ 64"

definition size_sub :: "nat \<Rightarrow> nat \<Rightarrow> nat" where
  "size_sub n k = (n + (2 ^ 64 - k)) mod 2 ^ 64"

subsection \<open>The initialisation\<close>

text \<open>\<^verbatim>\<open>for (size_t j = half_length; j > 0;) window_init[--j] = *(++src_pos);\<close>\<close>

fun reflect_fill :: "'a list \<Rightarrow> nat \<Rightarrow> nat \<Rightarrow> 'a list \<Rightarrow> error + ('a list \<times> nat)" where
  "reflect_fill src 0 src_pos window_init = Inr (window_init, src_pos)"
| "reflect_fill src (Suc j) src_pos window_init =
     bindE (array_read src (src_pos + 1)) (\<lambda>v.
     bindE (deque_set window_init j v) (\<lambda>window_init'.
       reflect_fill src j (src_pos + 1) window_init'))"

text \<open>
  \<^verbatim>\<open>for (size_t j = 0; j < half_length; ++j, ++values_seen)\<close>: the reflected half,
  read from \<^verbatim>\<open>window_init\<close> by index.
\<close>

function insert_reflected ::
  "nat \<Rightarrow> 'a::linorder list \<Rightarrow> nat \<Rightarrow> nat \<times> ('a \<times> nat) list \<times> ('a \<times> nat) iterator list
     \<Rightarrow> error + (nat \<times> ('a \<times> nat) list \<times> ('a \<times> nat) iterator list)" where
  "insert_reflected half_length window_init j (values_seen, sorted_window, window_iters) =
     (if j < half_length then
        bindE (deque_get window_init j) (\<lambda>v.
        let each_pair = (v, values_seen);
            (sorted_window', it) = set_insert each_pair sorted_window
        in bindE (deque_set window_iters j it) (\<lambda>window_iters'.
             insert_reflected half_length window_init (j + 1)
               (size_incr values_seen, sorted_window', window_iters')))
      else Inr (values_seen, sorted_window, window_iters))"
  by pat_completeness auto
termination
  by (relation "measure (\<lambda>(half_length, window_init, j, w). half_length - j)") auto

declare insert_reflected.simps [simp del]

text \<open>
  \<^verbatim>\<open>for (size_t j = half_length; j < length; ++j, ++values_seen)\<close>: the forward half,
  popped off the back of \<^verbatim>\<open>window_init\<close>.
\<close>

function insert_forward ::
  "nat \<Rightarrow> nat \<Rightarrow> 'a::linorder list \<times> nat \<times> ('a \<times> nat) list \<times> ('a \<times> nat) iterator list
     \<Rightarrow> error + ('a list \<times> nat \<times> ('a \<times> nat) list \<times> ('a \<times> nat) iterator list)" where
  "insert_forward length' j (window_init, values_seen, sorted_window, window_iters) =
     (if j < length' then
        bindE (deque_back window_init) (\<lambda>v.
        let each_pair = (v, values_seen);
            (sorted_window', it) = set_insert each_pair sorted_window
        in bindE (deque_set window_iters j it) (\<lambda>window_iters'.
           bindE (deque_pop_back window_init) (\<lambda>window_init'.
             insert_forward length' (j + 1)
               (window_init', size_incr values_seen, sorted_window', window_iters'))))
      else Inr (window_init, values_seen, sorted_window, window_iters))"
  by pat_completeness auto
termination
  by (relation "measure (\<lambda>(length', j, w). length' - j)") auto

declare insert_forward.simps [simp del]

text \<open>
  The block that builds the initial window (source lines 71 to 95). It returns
  \<^verbatim>\<open>values_seen\<close>, \<^verbatim>\<open>sorted_window\<close>, \<^verbatim>\<open>window_iters\<close> and \<^verbatim>\<open>src_pos\<close>.
  \<^verbatim>\<open>std::deque<T> window_init(n)\<close> holds \<open>n\<close> value-initialised elements, \<open>0\<close> for
  an arithmetic type.
\<close>

definition window_setup ::
  "'a::{linorder,zero} list \<Rightarrow> nat \<Rightarrow> nat \<Rightarrow> nat \<Rightarrow> ('a \<times> nat) iterator list
     \<Rightarrow> error + (nat \<times> ('a \<times> nat) list \<times> ('a \<times> nat) iterator list \<times> nat)" where
  "window_setup src half_length half_length_add_1 length' window_iters =
     bindE (deque_create half_length_add_1 0) (\<lambda>window_init.
     bindE (array_read src 0) (\<lambda>v.
     bindE (deque_set window_init half_length v) (\<lambda>window_init.
     bindE (reflect_fill src half_length 0 window_init) (\<lambda>(window_init, src_pos).
     let src_pos = src_pos + 1 in
     bindE (insert_reflected half_length window_init 0 (0, [], window_iters)) (\<lambda>w.
     bindE (insert_forward length' half_length (window_init, w))
       (\<lambda>(window_init, values_seen, sorted_window, window_iters).
        Inr (values_seen, sorted_window, window_iters, src_pos)))))))"

subsection \<open>Rolling the window forward\<close>

text \<open>
  The chain of \<^verbatim>\<open>if\<close> / \<^verbatim>\<open>else if\<close> of source lines 137 to 176, in its order. The
  conditions are those of the source; \<open>FallThrough\<close> is the missing final \<^verbatim>\<open>else\<close>.
\<close>

datatype roll_case = KeepAbove | KeepBelow | ShiftBack | ShiftForward | FallThrough

definition branch_conditions :: "'a::ord \<Rightarrow> 'a \<Rightarrow> 'a \<Rightarrow> bool list" where
  "branch_conditions rank_value prev_value next_value =
     [rank_value < prev_value \<and> rank_value \<le> next_value,
      rank_value \<ge> prev_value \<and> rank_value > next_value,
      rank_value < prev_value \<and> rank_value > next_value,
      rank_value \<ge> prev_value \<and> rank_value \<le> next_value]"

definition branch_taken :: "'a::ord \<Rightarrow> 'a \<Rightarrow> 'a \<Rightarrow> roll_case" where
  "branch_taken rank_value prev_value next_value =
     (if rank_value < prev_value \<and> rank_value \<le> next_value then KeepAbove
      else if rank_value \<ge> prev_value \<and> rank_value > next_value then KeepBelow
      else if rank_value < prev_value \<and> rank_value > next_value then ShiftBack
      else if rank_value \<ge> prev_value \<and> rank_value \<le> next_value then ShiftForward
      else FallThrough)"

record 'a roll_state =
  values_seen :: nat
  sorted_window :: "('a \<times> nat) list"
  window_iters :: "('a \<times> nat) iterator list"
  rank_point :: "('a \<times> nat) iterator"
  rank_value :: 'a
  window_reflect_pos :: nat
  src_pos :: nat
  src_not_empty :: bool
  dest :: "'a list"
  dest_pos :: nat

text \<open>The condition of the \<^verbatim>\<open>while\<close> loop.\<close>

definition roll_cond :: "'a roll_state \<Rightarrow> bool" where
  "roll_cond s \<longleftrightarrow> src_not_empty s \<or> window_reflect_pos s > 0"

text \<open>
  ``Determine next value to add to window'': the next source sample, or a sample
  reflected out of \<^verbatim>\<open>window_iters\<close> once the source is used up.
\<close>

definition next_sample :: "'a list \<Rightarrow> 'a roll_state \<Rightarrow> error + ('a \<times> 'a roll_state)" where
  "next_sample src s =
     (if src_not_empty s then
        bindE (array_read src (src_pos s)) (\<lambda>next_value.
          Inr (next_value,
               s\<lparr>src_pos := src_pos s + 1, src_not_empty := (src_pos s + 1 \<noteq> length src)\<rparr>))
      else
        let window_reflect_pos' = size_sub (window_reflect_pos s) 2 in
        bindE (deque_get (window_iters s) window_reflect_pos') (\<lambda>it.
        bindE (deref (sorted_window s) it) (\<lambda>p.
          Inr (fst p, s\<lparr>window_reflect_pos := window_reflect_pos'\<rparr>))))"

text \<open>The statements the branches of the update are made of.\<close>

definition erase_prev :: "('a::linorder \<times> nat) iterator \<Rightarrow> 'a roll_state \<Rightarrow> error + 'a roll_state" where
  "erase_prev prev_iter s =
     bindE (set_erase prev_iter (sorted_window s)) (\<lambda>sw. Inr (s\<lparr>sorted_window := sw\<rparr>))"

definition insert_next :: "('a::linorder \<times> nat) \<Rightarrow> 'a roll_state \<Rightarrow> 'a roll_state" where
  "insert_next next_pair s =
     (let (sw, it) = set_insert next_pair (sorted_window s)
      in s\<lparr>sorted_window := sw, window_iters := deque_push_back (window_iters s) it\<rparr>)"

definition rank_point_decr :: "'a::linorder roll_state \<Rightarrow> error + 'a roll_state" where
  "rank_point_decr s =
     bindE (iter_decr (sorted_window s) (rank_point s)) (\<lambda>it. Inr (s\<lparr>rank_point := it\<rparr>))"

definition rank_point_incr :: "'a::linorder roll_state \<Rightarrow> error + 'a roll_state" where
  "rank_point_incr s =
     bindE (iter_incr (sorted_window s) (rank_point s)) (\<lambda>it. Inr (s\<lparr>rank_point := it\<rparr>))"

definition update_window ::
  "('a::linorder \<times> nat) iterator \<Rightarrow> 'a \<Rightarrow> 'a \<Rightarrow> ('a \<times> nat) \<Rightarrow> 'a roll_state \<Rightarrow> error + 'a roll_state" where
  "update_window prev_iter prev_value next_value next_pair s =
     (case branch_taken (rank_value s) prev_value next_value of
        KeepAbove \<Rightarrow>
          bindE (erase_prev prev_iter s) (\<lambda>s. Inr (insert_next next_pair s))
      | KeepBelow \<Rightarrow>
          if rank_point s = prev_iter then
            bindE (rank_point_decr (insert_next next_pair s)) (erase_prev prev_iter)
          else
            bindE (erase_prev prev_iter s) (\<lambda>s. Inr (insert_next next_pair s))
      | ShiftBack \<Rightarrow>
          bindE (erase_prev prev_iter s) (\<lambda>s. rank_point_decr (insert_next next_pair s))
      | ShiftForward \<Rightarrow>
          if rank_point s = prev_iter then
            bindE (rank_point_incr (insert_next next_pair s)) (erase_prev prev_iter)
          else
            bindE (erase_prev prev_iter s) (\<lambda>s. rank_point_incr (insert_next next_pair s))
      | FallThrough \<Rightarrow> Inr s)"

text \<open>One pass through the body of the \<^verbatim>\<open>while\<close> loop (source lines 113 to 179).\<close>

definition roll_step :: "'a::linorder list \<Rightarrow> 'a roll_state \<Rightarrow> error + 'a roll_state" where
  "roll_step src s =
     bindE (deque_front (window_iters s)) (\<lambda>prev_iter.
     bindE (deref (sorted_window s) prev_iter) (\<lambda>prev_pair.
     let prev_value = fst prev_pair in
     bindE (deque_pop_front (window_iters s)) (\<lambda>popped.
     bindE (next_sample src (s\<lparr>window_iters := popped\<rparr>)) (\<lambda>(next_value, s).
     let s = s\<lparr>values_seen := size_incr (values_seen s)\<rparr>;
         next_pair = (next_value, values_seen s)
     in
     bindE (update_window prev_iter prev_value next_value next_pair s) (\<lambda>s.
     bindE (deref (sorted_window s) (rank_point s)) (\<lambda>rank_pair.
     bindE (array_write (dest s) (dest_pos s + 1) (fst rank_pair)) (\<lambda>dest'.
       Inr (s\<lparr>dest_pos := dest_pos s + 1, dest := dest', rank_value := fst rank_pair\<rparr>))))))))"

subsection \<open>The loop\<close>

text \<open>
  Every pass either moves \<^verbatim>\<open>src_pos\<close> towards the end of the source or lowers
  \<^verbatim>\<open>window_reflect_pos\<close>: a subtraction that wrapped around would index past the
  end of the deque.
\<close>

lemma bindE_Inr_iff: "bindE m f = Inr y \<longleftrightarrow> (\<exists>x. m = Inr x \<and> f x = Inr y)"
  by (cases m) (simp_all add: bindE_def)

lemma bindE_Inr [simp]: "bindE (Inr x) f = f x"
  by (simp add: bindE_def)

lemma bindE_Inl [simp]: "bindE (Inl e) f = Inl e"
  by (simp add: bindE_def)

lemma erase_prev_fields:
  "erase_prev it s = Inr s' \<Longrightarrow>
     src_pos s' = src_pos s \<and> window_reflect_pos s' = window_reflect_pos s"
  by (auto simp: erase_prev_def bindE_Inr_iff)

lemma insert_next_fields:
  "src_pos (insert_next p s) = src_pos s \<and>
   window_reflect_pos (insert_next p s) = window_reflect_pos s"
  by (simp add: insert_next_def split: prod.splits)

lemma rank_point_decr_fields:
  "rank_point_decr s = Inr s' \<Longrightarrow>
     src_pos s' = src_pos s \<and> window_reflect_pos s' = window_reflect_pos s"
  by (auto simp: rank_point_decr_def bindE_Inr_iff)

lemma rank_point_incr_fields:
  "rank_point_incr s = Inr s' \<Longrightarrow>
     src_pos s' = src_pos s \<and> window_reflect_pos s' = window_reflect_pos s"
  by (auto simp: rank_point_incr_def bindE_Inr_iff)

lemma update_window_fields:
  "update_window it pv nv np s = Inr s' \<Longrightarrow>
     src_pos s' = src_pos s \<and> window_reflect_pos s' = window_reflect_pos s"
  unfolding update_window_def
  by (cases "branch_taken (rank_value s) pv nv")
     (auto simp: bindE_Inr_iff insert_next_fields split: if_splits
           dest!: erase_prev_fields rank_point_decr_fields rank_point_incr_fields)

lemma size_sub_exact:
  assumes "k \<le> n" "k \<le> 2 ^ 64"
  shows "size_sub n k = (n - k) mod 2 ^ 64"
proof -
  from assms have "n + ((2::nat) ^ 64 - k) = (n - k) + 2 ^ 64" by arith
  then show ?thesis unfolding size_sub_def by (metis mod_add_self2)
qed

lemma size_sub_less:
  assumes "0 < n" "size_sub n 2 < deque_max_size"
  shows "size_sub n 2 < n"
proof (cases "2 \<le> n")
  case True
  then have "size_sub n 2 = (n - 2) mod 2 ^ 64" by (simp add: size_sub_exact)
  also have "\<dots> \<le> n - 2" by (rule mod_less_eq_dividend)
  finally show ?thesis using True by arith
next
  case False
  with assms(1) have "n = 1" by simp
  with assms(2) show ?thesis by (simp add: size_sub_def deque_max_size_def)
qed

lemma next_sample_measure:
  assumes "next_sample src s = Inr (v, s')" "src_not_empty s \<or> 0 < window_reflect_pos s"
  shows "(length src - src_pos s') + window_reflect_pos s'
           < (length src - src_pos s) + window_reflect_pos s"
proof (cases "src_not_empty s")
  case True
  with assms(1) show ?thesis
    by (auto simp: next_sample_def bindE_Inr_iff array_read_def split: if_splits)
next
  case False
  with assms have "0 < window_reflect_pos s" by simp
  with False assms(1) show ?thesis
    by (auto simp: next_sample_def bindE_Inr_iff deque_get_def Let_def split: if_splits
             dest: size_sub_less)
qed

lemma roll_step_measure:
  assumes "roll_step src s = Inr s'" "roll_cond s"
  shows "(length src - src_pos s') + window_reflect_pos s'
           < (length src - src_pos s) + window_reflect_pos s"
proof -
  from assms(1) obtain popped nv s1 it pv np s2 where
    ns: "next_sample src (s\<lparr>window_iters := popped\<rparr>) = Inr (nv, s1)"
    and uw: "update_window it pv nv np (s1\<lparr>values_seen := size_incr (values_seen s1)\<rparr>) = Inr s2"
    and s': "src_pos s' = src_pos s2" "window_reflect_pos s' = window_reflect_pos s2"
    by (auto simp: roll_step_def bindE_Inr_iff Let_def split: prod.splits)
  from next_sample_measure [OF ns] assms(2) update_window_fields [OF uw] s'
  show ?thesis by (simp add: roll_cond_def)
qed

text \<open>\<^verbatim>\<open>while ( src_not_empty || ( window_reflect_pos > 0 ) )\<close>\<close>

function roll_loop :: "'a::linorder list \<Rightarrow> 'a roll_state \<Rightarrow> error + 'a roll_state" where
  "roll_loop src s =
     (if roll_cond s
      then (case roll_step src s of Inl e \<Rightarrow> Inl e | Inr s' \<Rightarrow> roll_loop src s')
      else Inr s)"
  by pat_completeness auto
termination
  by (relation "measure (\<lambda>(src, s). (length src - src_pos s) + window_reflect_pos s)")
     (auto dest: roll_step_measure)

declare roll_loop.simps [simp del]

subsection \<open>The whole function\<close>

text \<open>
  Source lines 59 to 110: the containers, the initial window, the rank cursor found
  by \<^verbatim>\<open>std::advance\<close> from \<^verbatim>\<open>begin()\<close>, and the first value stored.
\<close>

definition initial_state ::
  "'a::{linorder,zero} list \<Rightarrow> 'a list \<Rightarrow> nat \<Rightarrow> nat \<Rightarrow> nat \<Rightarrow> nat \<Rightarrow> real
     \<Rightarrow> error + 'a roll_state" where
  "initial_state src dest0 half_length half_length_add_1 length_sub_1 length' rank =
     bindE (deque_create length' Singular) (\<lambda>iters.
     bindE (window_setup src half_length half_length_add_1 length' iters)
       (\<lambda>(seen, sorted, iters, pos).
     let rank_pos = rank_pos_of rank length_sub_1 in
     bindE (advance sorted (set_begin sorted) rank_pos) (\<lambda>rank_point0.
     bindE (deref sorted rank_point0) (\<lambda>rank_pair.
     bindE (array_write dest0 0 (fst rank_pair)) (\<lambda>dest1.
       Inr \<lparr>values_seen = seen, sorted_window = sorted, window_iters = iters,
            rank_point = rank_point0, rank_value = fst rank_pair,
            window_reflect_pos = length_sub_1, src_pos = pos,
            src_not_empty = (pos \<noteq> length src), dest = dest1, dest_pos = 0\<rparr>)))))"

text \<open>
  \<^verbatim>\<open>lineRankOrderFilter1D\<close>. The destination range is given by its contents before
  the call and returned with its contents after it. The \<^verbatim>\<open>assert\<close>s come in the
  order of the source.
\<close>

definition lineRankOrderFilter1D ::
  "'a::{linorder,zero} list \<Rightarrow> 'a list \<Rightarrow> 64 word \<Rightarrow> real \<Rightarrow> error + 'a list" where
  "lineRankOrderFilter1D src dest0 half_length rank =
     (let half_length_add_1 = half_length + 1;
          length_sub_1 = 2 * half_length;
          length' = length_sub_1 + 1
      in
      if \<not> length src \<le> length dest0 then Inl DestinationTooSmall
      else if \<not> unat half_length_add_1 \<le> length src then Inl WindowTooLarge
      else if \<not> (0 \<le> rank \<and> rank \<le> 1) then Inl RankOutOfRange
      else
        bindE (initial_state src dest0 (unat half_length) (unat half_length_add_1)
                 (unat length_sub_1) (unat length') rank) (\<lambda>s.
        bindE (roll_loop src s) (\<lambda>s. Inr (dest s))))"

section \<open>What the filter is to compute\<close>

text \<open>
  Position \<open>i\<close> of the sequence extended by reflection at both ends, the window
  around an output position, and its order statistic found by sorting the window.
\<close>

definition reflect :: "nat \<Rightarrow> int \<Rightarrow> nat" where
  "reflect n i = (if i < 0 then nat (- i) else if int n \<le> i then nat (2 * (int n - 1) - i) else nat i)"

definition window_at :: "'a list \<Rightarrow> nat \<Rightarrow> nat \<Rightarrow> 'a list" where
  "window_at src half_length p =
     map (\<lambda>i. src ! reflect (length src) (int p + int i - int half_length)) [0..<2 * half_length + 1]"

definition rank_filter_spec :: "'a::linorder list \<Rightarrow> nat \<Rightarrow> real \<Rightarrow> 'a list" where
  "rank_filter_spec src half_length rank =
     map (\<lambda>p. sort (window_at src half_length p) ! rank_pos_of rank (2 * half_length))
       [0..<length src]"

text \<open>The state after a number of passes through the loop body.\<close>

fun roll_steps :: "'a::linorder list \<Rightarrow> nat \<Rightarrow> 'a roll_state \<Rightarrow> error + 'a roll_state" where
  "roll_steps src 0 s = Inr s"
| "roll_steps src (Suc k) s = bindE (roll_steps src k s) (roll_step src)"

text \<open>
  The state of a call after the initialisation and \<open>p\<close> passes, from the arguments
  of the call.
\<close>

definition state_after_passes ::
  "'a::{linorder,zero} list \<Rightarrow> 'a list \<Rightarrow> 64 word \<Rightarrow> real \<Rightarrow> nat \<Rightarrow> error + 'a roll_state" where
  "state_after_passes src dest0 half_length rank p =
     bindE (initial_state src dest0 (unat half_length) (unat (half_length + 1))
              (unat (2 * half_length)) (unat (2 * half_length + 1)) rank) (roll_steps src p)"

text \<open>
  The inputs the three \<^verbatim>\<open>assert\<close>s are meant to admit, and the inputs that fit the
  machine: a source whose length \<^verbatim>\<open>std::distance\<close> can return, and a window no
  longer than a deque can be, and below the \<open>2 ^ 53\<close> samples up to which a
  \<^verbatim>\<open>double\<close> holds every length exactly. The ordered set of a window of \<open>2 ^ 53\<close>
  samples has as many nodes, of three pointers and a pair each: more than \<open>2 ^ 58\<close>
  bytes. Beyond \<open>2 ^ 54\<close> the conversion of \<^verbatim>\<open>length_sub_1\<close> on line 98 can round up,
  and with it the rank position can pass the end of the window.
\<close>

definition valid_input :: "'a list \<Rightarrow> 'a list \<Rightarrow> 64 word \<Rightarrow> real \<Rightarrow> bool" where
  "valid_input src dest0 half_length rank \<longleftrightarrow>
     unat half_length + 1 \<le> length src \<and> length src \<le> length dest0 \<and> 0 \<le> rank \<and> rank \<le> 1"

definition in_memory :: "'a list \<Rightarrow> 64 word \<Rightarrow> bool" where
  "in_memory src half_length \<longleftrightarrow>
     length src < 2 ^ 63 \<and> 2 * unat half_length + 1 \<le> deque_max_size \<and>
     2 * unat half_length < 2 ^ 53"

text \<open>The number of elements of an ascending list that lie strictly below \<open>x\<close>.\<close>

definition ordinal :: "'b::linorder list \<Rightarrow> 'b \<Rightarrow> nat" where
  "ordinal xs x = length (filter (\<lambda>y. y < x) xs)"

section \<open>The state of a run in closed form\<close>

text \<open>
  Slot \<open>a\<close> is the \<open>a\<close>-th sample that enters the window over a whole run: its value
  is the source at position \<open>a - h\<close> of the reflected sequence, its sequence index
  is \<open>a\<close> during initialisation and \<open>a + 1\<close> afterwards, since the loop increments
  \<^verbatim>\<open>values_seen\<close> before it uses it. After \<open>p\<close> passes the window holds the slots
  \<open>p\<close> to \<open>p + 2 * h\<close>.
\<close>

definition slot_value :: "'a list \<Rightarrow> nat \<Rightarrow> nat \<Rightarrow> 'a" where
  "slot_value src h a = src ! reflect (length src) (int a - int h)"

definition slot_index :: "nat \<Rightarrow> nat \<Rightarrow> nat" where
  "slot_index h a = (if a \<le> 2 * h then a else a + 1)"

definition slot :: "'a list \<Rightarrow> nat \<Rightarrow> nat \<Rightarrow> 'a \<times> nat" where
  "slot src h a = (slot_value src h a, slot_index h a)"

definition slots :: "'a list \<Rightarrow> nat \<Rightarrow> nat \<Rightarrow> ('a \<times> nat) list" where
  "slots src h p = map (slot src h) [p..<p + 2 * h + 1]"

definition output_at :: "'a::linorder list \<Rightarrow> nat \<Rightarrow> nat \<Rightarrow> nat \<Rightarrow> 'a" where
  "output_at src h k p = fst (sort (slots src h p) ! k)"

definition state_at :: "'a::linorder list \<Rightarrow> 'a list \<Rightarrow> nat \<Rightarrow> nat \<Rightarrow> nat \<Rightarrow> 'a roll_state" where
  "state_at src dest0 h k p =
     \<lparr>values_seen = 2 * h + 1 + p,
      sorted_window = sort (slots src h p),
      window_iters = map At (slots src h p),
      rank_point = At (sort (slots src h p) ! k),
      rank_value = output_at src h k p,
      window_reflect_pos = 2 * h - 2 * (p + h + 1 - length src),
      src_pos = min (p + h + 1) (length src),
      src_not_empty = (p + h + 1 < length src),
      dest = map (output_at src h k) [0..<p + 1] @ drop (p + 1) dest0,
      dest_pos = p\<rparr>"

section \<open>Iterators of an ascending list\<close>

lemma strict_sorted_nth_less:
  assumes "sorted xs" "distinct xs" "i < j" "j < length xs"
  shows "xs ! i < xs ! j"
proof -
  from assms have "sorted_wrt (<) xs" by (simp add: strict_sorted_iff)
  with assms(3,4) show ?thesis by (simp add: sorted_wrt_iff_nth_less)
qed

lemma filter_less_nth:
  assumes "sorted xs" "distinct xs" "i < length xs"
  shows "filter (\<lambda>y. y < xs ! i) xs = take i xs"
proof -
  have "filter (\<lambda>y. y < xs ! i) (take i xs) = take i xs"
    using assms by (auto simp: filter_id_conv in_set_conv_nth strict_sorted_nth_less)
  moreover have "filter (\<lambda>y. y < xs ! i) (drop i xs) = []"
    using assms
    by (auto simp: filter_empty_conv in_set_conv_nth not_less intro!: sorted_nth_mono)
  ultimately have "filter (\<lambda>y. y < xs ! i) (take i xs @ drop i xs) = take i xs"
    by (simp only: filter_append append_Nil2)
  then show ?thesis by simp
qed

lemma filter_greater_nth:
  assumes "sorted xs" "distinct xs" "i < length xs"
  shows "filter (\<lambda>y. xs ! i < y) xs = drop (Suc i) xs"
proof -
  have "filter (\<lambda>y. xs ! i < y) (drop (Suc i) xs) = drop (Suc i) xs"
    using assms by (auto simp: filter_id_conv in_set_conv_nth strict_sorted_nth_less)
  moreover have "filter (\<lambda>y. xs ! i < y) (take (Suc i) xs) = []"
    using assms
    by (auto simp: filter_empty_conv in_set_conv_nth not_less intro!: sorted_nth_mono)
  ultimately have "filter (\<lambda>y. xs ! i < y) (take (Suc i) xs @ drop (Suc i) xs) = drop (Suc i) xs"
    by (simp only: filter_append append_Nil)
  then show ?thesis by simp
qed

lemma ordinal_nth:
  assumes "sorted xs" "distinct xs" "i < length xs"
  shows "ordinal xs (xs ! i) = i"
  using assms by (simp add: ordinal_def filter_less_nth)

lemma nth_ordinal:
  assumes "sorted xs" "distinct xs" "x \<in> set xs"
  shows "ordinal xs x < length xs \<and> xs ! ordinal xs x = x"
proof -
  from assms(3) obtain i where "i < length xs" "xs ! i = x" by (auto simp: in_set_conv_nth)
  with ordinal_nth [OF assms(1,2), of i] show ?thesis by auto
qed

lemma ordinal_mset: "ordinal xs x = size (filter_mset (\<lambda>y. y < x) (mset xs))"
  by (simp add: ordinal_def flip: mset_filter)

lemma ordinal_insort: "ordinal (insort y xs) x = ordinal xs x + (if y < x then 1 else 0)"
  by (simp add: ordinal_mset)

lemma ordinal_remove1:
  "y \<in> set xs \<Longrightarrow> ordinal (remove1 y xs) x = ordinal xs x - (if y < x then 1 else 0)"
  by (simp add: ordinal_mset size_Diff_singleton)

lemma iter_incr_nth:
  assumes "sorted xs" "distinct xs" "i < length xs"
  shows "iter_incr xs (At (xs ! i)) = Inr (if Suc i < length xs then At (xs ! Suc i) else End)"
proof -
  have "(case drop (Suc i) xs of [] \<Rightarrow> End | y # _ \<Rightarrow> At y)
          = (if Suc i < length xs then At (xs ! Suc i) else End)"
  proof (cases "Suc i < length xs")
    case True
    then show ?thesis by (simp flip: Cons_nth_drop_Suc)
  next
    case False
    then show ?thesis by simp
  qed
  with assms show ?thesis
    by (simp add: iter_incr_def filter_greater_nth)
qed

lemma iter_decr_nth:
  assumes "sorted xs" "distinct xs" "i < length xs" "0 < i"
  shows "iter_decr xs (At (xs ! i)) = Inr (At (xs ! (i - 1)))"
proof -
  from assms have ne: "take i xs \<noteq> []" by auto
  then obtain y ys where yys: "take i xs = y # ys" by (cases "take i xs") auto
  have "last (take i xs) = xs ! (i - 1)"
    using assms ne by (simp add: last_conv_nth)
  with assms yys show ?thesis
    by (simp add: iter_decr_def filter_less_nth)
qed

lemma advance_nth:
  assumes "sorted xs" "distinct xs" "i + k < length xs"
  shows "advance xs (At (xs ! i)) k = Inr (At (xs ! (i + k)))"
  using assms(3)
proof (induction k arbitrary: i)
  case 0
  then show ?case by simp
next
  case (Suc k)
  then have "iter_incr xs (At (xs ! i)) = Inr (At (xs ! Suc i))"
    using iter_incr_nth [OF assms(1,2), of i] by simp
  with Suc.IH [of "Suc i"] Suc.prems show ?case by simp
qed

lemma nth_of_ordinal:
  assumes "sorted xs" "distinct xs" "x \<in> set xs" "ordinal xs x = j"
  shows "xs ! j = x" "j < length xs"
  using nth_ordinal [OF assms(1-3)] assms(4) by auto

lemma iter_decr_ordinal:
  assumes "sorted xs" "distinct xs" "x \<in> set xs" "ordinal xs x = Suc j"
  shows "iter_decr xs (At x) = Inr (At (xs ! j))"
  using iter_decr_nth [OF assms(1,2), of "Suc j"] nth_of_ordinal [OF assms] by simp

lemma iter_incr_ordinal:
  assumes "sorted xs" "distinct xs" "x \<in> set xs" "ordinal xs x = j" "Suc j < length xs"
  shows "iter_incr xs (At x) = Inr (At (xs ! Suc j))"
  using iter_incr_nth [OF assms(1,2), of j] nth_of_ordinal [OF assms(1-4)] assms(5) by simp

lemma ordinal_pos: "y \<in> set xs \<Longrightarrow> y < x \<Longrightarrow> 0 < ordinal xs x"
  by (auto simp: ordinal_def filter_empty_conv)

lemma sorted_mset_unique:
  fixes xs ys :: "'b::linorder list"
  assumes "sorted xs" "sorted ys" "mset xs = mset ys"
  shows "xs = ys"
  using assms by (metis properties_for_sort)

lemma remove1_insort_commute:
  fixes xs :: "'b::linorder list"
  assumes "sorted xs" "y \<noteq> x"
  shows "remove1 x (insort y xs) = insort y (remove1 x xs)"
proof (rule sorted_mset_unique)
  show "sorted (remove1 x (insort y xs))" using assms by (simp add: sorted_remove1 sorted_insort)
  show "sorted (insort y (remove1 x xs))" using assms by (simp add: sorted_remove1 sorted_insort)
  show "mset (remove1 x (insort y xs)) = mset (insort y (remove1 x xs))"
    using assms by simp
qed

section \<open>The cursor update\<close>

text \<open>
  One update of the window on a set whose cursor is at ordinal \<open>k\<close>: the oldest
  element leaves, an element with a fresh, largest sequence index enters, and the
  cursor is again at ordinal \<open>k\<close>.
\<close>

lemma set_insert_new: "x \<notin> set xs \<Longrightarrow> set_insert x xs = (insort x xs, At x)"
  by (simp add: set_insert_def)

lemma set_erase_mem: "x \<in> set xs \<Longrightarrow> set_erase (At x) xs = Inr (remove1 x xs)"
  by (simp add: set_erase_def)

lemma deref_mem: "x \<in> set xs \<Longrightarrow> deref xs (At x) = Inr x"
  by (simp add: deref_def)

lemma branch_taken_linorder:
  fixes rv :: "'a::linorder"
  shows "branch_taken rv pv nv =
     (if rv < pv then (if rv \<le> nv then KeepAbove else ShiftBack)
      else (if rv \<le> nv then ShiftForward else KeepBelow))"
  by (auto simp: branch_taken_def)

lemma update_window_correct:
  fixes s :: "'a::linorder roll_state" and prev nxt :: "'a \<times> nat"
  assumes srt: "sorted (sorted_window s)" and dst: "distinct (sorted_window s)"
    and k: "k < length (sorted_window s)"
    and rp: "rank_point s = At (sorted_window s ! k)"
    and rv: "rank_value s = fst (sorted_window s ! k)"
    and prev: "prev \<in> set (sorted_window s)"
    and oldest: "\<forall>x\<in>set (sorted_window s). x \<noteq> prev \<longrightarrow> snd prev < snd x"
    and newest: "\<forall>x\<in>set (sorted_window s). snd x < snd nxt"
  shows "update_window (At prev) (fst prev) (fst nxt) nxt s =
     Inr (s\<lparr>sorted_window := insort nxt (remove1 prev (sorted_window s)),
            window_iters := window_iters s @ [At nxt],
            rank_point := At (insort nxt (remove1 prev (sorted_window s)) ! k)\<rparr>)"
proof -
  define xs where "xs = sorted_window s"
  define r where "r = xs ! k"
  define xs1 where "xs1 = insort nxt xs"
  define xs' where "xs' = insort nxt (remove1 prev xs)"
  note sw = xs_def [symmetric]
  have r_in: "r \<in> set xs" using k by (simp add: r_def xs_def)
  have ord_r: "ordinal xs r = k" using srt dst k by (simp add: r_def xs_def ordinal_nth)
  have nxt_new: "nxt \<notin> set xs" using newest by (auto simp: xs_def)
  have nxt_prev: "nxt \<noteq> prev" using nxt_new prev by (auto simp: xs_def)
  have s1: "sorted xs1" "distinct xs1" "length xs1 = Suc (length xs)"
    using srt dst nxt_new by (simp_all add: xs1_def xs_def sorted_insort distinct_insort)
  have s': "sorted xs'" "distinct xs'" "length xs' = length xs"
    using srt dst nxt_new prev k
    by (auto simp: xs'_def xs_def sorted_insort sorted_remove1 distinct_insort length_remove1)
  have xs'_alt: "remove1 prev xs1 = xs'"
    using srt nxt_prev by (simp add: xs1_def xs'_def xs_def remove1_insort_commute)
  have prev1: "prev \<in> set xs1" using prev by (simp add: xs1_def xs_def set_insort_key)
  have prev_xs: "prev \<in> set xs" using prev by (simp add: xs_def)
  have ord1: "\<And>x. ordinal xs1 x = ordinal xs x + (if nxt < x then 1 else 0)"
    by (simp add: xs1_def ordinal_insort)
  have ord': "\<And>x. ordinal xs' x = ordinal xs x - (if prev < x then 1 else 0) + (if nxt < x then 1 else 0)"
    using prev_xs by (simp add: xs'_def ordinal_insort ordinal_remove1)
  have set': "set xs' = insert nxt (set xs - {prev})"
    using dst by (auto simp: xs'_def xs_def set_insort_key)
  have set1: "set xs1 = insert nxt (set xs)" by (simp add: xs1_def set_insort_key)
  have r_nxt: "snd r < snd nxt" using newest r_in by (simp add: xs_def)
  have r_prev: "r \<noteq> prev \<Longrightarrow> snd prev < snd r" using oldest r_in by (simp add: xs_def)
  have upd_a: "erase_prev (At prev) s = Inr (s\<lparr>sorted_window := remove1 prev xs\<rparr>)"
    using prev by (simp add: erase_prev_def set_erase_mem xs_def)
  have nxt_new': "nxt \<notin> set (remove1 prev xs)" using nxt_new by (auto dest: notin_set_remove1)
  have ins_a: "\<And>t. sorted_window t = remove1 prev xs \<Longrightarrow>
      insert_next nxt t = t\<lparr>sorted_window := xs', window_iters := window_iters t @ [At nxt]\<rparr>"
    using nxt_new' by (simp add: insert_next_def set_insert_new xs'_def deque_push_back_def)
  have ins_b: "insert_next nxt s = s\<lparr>sorted_window := xs1, window_iters := window_iters s @ [At nxt]\<rparr>"
    using nxt_new by (simp add: insert_next_def set_insert_new xs1_def deque_push_back_def sw)
  have erase_b: "\<And>t. sorted_window t = xs1 \<Longrightarrow> erase_prev (At prev) t = Inr (t\<lparr>sorted_window := xs'\<rparr>)"
    using prev1 by (simp add: erase_prev_def set_erase_mem xs'_alt)
  have rp': "rank_point s = At r" and rv': "rank_value s = fst r"
    using rp rv by (simp_all add: r_def xs_def)
  show ?thesis
  proof (cases "fst r < fst prev")
    case above: True
    then have r_lt_prev: "r < prev" and r_ne: "r \<noteq> prev" by (auto simp: less_prod_def)
    then have "\<not> prev < r" by simp
    show ?thesis
    proof (cases "fst r \<le> fst nxt")
      case True
      then have "r < nxt" using r_nxt by (auto simp: less_prod_def)
      then have "ordinal xs' r = k" using \<open>\<not> prev < r\<close> ord_r by (simp add: ord')
      moreover have "r \<in> set xs'" using r_in r_ne by (simp add: set')
      ultimately have "xs' ! k = r" using s' by (simp add: nth_of_ordinal)
      then show ?thesis using above True
        by (simp add: update_window_def branch_taken_linorder rv' upd_a ins_a sw xs'_def [symmetric] rp')
    next
      case False
      then have "nxt < r" by (auto simp: less_prod_def)
      then have "ordinal xs' r = Suc k" using \<open>\<not> prev < r\<close> ord_r by (simp add: ord')
      moreover have "r \<in> set xs'" using r_in r_ne by (simp add: set')
      ultimately have "iter_decr xs' (At r) = Inr (At (xs' ! k))"
        using s' by (simp add: iter_decr_ordinal)
      then show ?thesis using above False
        by (simp add: update_window_def branch_taken_linorder rv' upd_a ins_a sw xs'_def [symmetric] rp'
              rank_point_decr_def)
    qed
  next
    case below: False
    have prev_lt: "r \<noteq> prev \<Longrightarrow> prev < r"
      using below r_prev by (auto simp: less_prod_def)
    show ?thesis
    proof (cases "fst r \<le> fst nxt")
      case True
      then have r_lt: "r < nxt" using r_nxt by (auto simp: less_prod_def)
      show ?thesis
      proof (cases "r = prev")
        case same: True
        have "ordinal xs1 r = k" using r_lt ord_r by (simp add: ord1)
        moreover have "r \<in> set xs1" using r_in by (simp add: set1)
        moreover have "Suc k < length xs1" using k s1 by (simp add: xs_def)
        ultimately have incr: "iter_incr xs1 (At r) = Inr (At (xs1 ! Suc k))"
          and r1: "xs1 ! k = r"
          using s1 by (simp_all add: iter_incr_ordinal nth_of_ordinal)
        define q where "q = xs1 ! Suc k"
        have "r < q" using s1 \<open>Suc k < length xs1\<close> r1 strict_sorted_nth_less [of xs1 k "Suc k"]
          by (simp add: q_def)
        moreover have q1: "q \<in> set xs1" using \<open>Suc k < length xs1\<close> by (simp add: q_def)
        moreover have "ordinal xs1 q = Suc k" using s1 \<open>Suc k < length xs1\<close>
          by (simp add: q_def ordinal_nth)
        ultimately have "ordinal xs' q = k" "q \<in> set xs'"
          using same ord1 [of q] ord' [of q] ordinal_pos [OF prev_xs, of q]
          by (auto simp: set' set1 split: if_splits)
        then have "xs' ! k = q" using s' by (simp add: nth_of_ordinal)
        then show ?thesis using below True same incr
          by (simp add: update_window_def branch_taken_linorder rv' ins_b erase_b sw xs'_def [symmetric] rp'
              rank_point_incr_def q_def)
      next
        case diff: False
        then have "prev < r" by (rule prev_lt)
        then have "0 < k" using ord_r ordinal_pos [OF prev_xs, of r] by simp
        then have "ordinal xs' r = k - 1" using \<open>prev < r\<close> r_lt ord_r by (simp add: ord')
        moreover have "r \<in> set xs'" using r_in diff by (simp add: set')
        moreover have "Suc (k - 1) < length xs'" using k s' \<open>0 < k\<close> by (simp add: xs_def)
        ultimately have "iter_incr xs' (At r) = Inr (At (xs' ! Suc (k - 1)))"
          using s' by (simp add: iter_incr_ordinal)
        then show ?thesis using below True diff \<open>0 < k\<close>
          by (simp add: update_window_def branch_taken_linorder rv' upd_a ins_a sw xs'_def [symmetric] rp'
              rank_point_incr_def)
      qed
    next
      case False
      then have n_lt: "nxt < r" by (auto simp: less_prod_def)
      show ?thesis
      proof (cases "r = prev")
        case same: True
        have "ordinal xs1 r = Suc k" using n_lt ord_r by (simp add: ord1)
        moreover have "r \<in> set xs1" using r_in by (simp add: set1)
        ultimately have decr: "iter_decr xs1 (At r) = Inr (At (xs1 ! k))"
          and r1: "xs1 ! Suc k = r" "Suc k < length xs1"
          using s1 k by (simp_all add: iter_decr_ordinal nth_of_ordinal xs_def)
        define q where "q = xs1 ! k"
        have "q < r" using s1 r1 strict_sorted_nth_less [of xs1 k "Suc k"]
          by (simp add: q_def)
        moreover have q1: "q \<in> set xs1" using r1 by (simp add: q_def)
        moreover have "ordinal xs1 q = k" using s1 r1
          by (simp add: q_def ordinal_nth)
        ultimately have "ordinal xs' q = k" "q \<in> set xs'"
          using same ord1 [of q] ord' [of q] by (auto simp: set' set1 split: if_splits)
        then have "xs' ! k = q" using s' by (simp add: nth_of_ordinal)
        then show ?thesis using below False same decr
          by (simp add: update_window_def branch_taken_linorder rv' ins_b erase_b sw xs'_def [symmetric] rp'
              rank_point_decr_def q_def)
      next
        case diff: False
        then have "prev < r" by (rule prev_lt)
        then have "0 < k" using ord_r ordinal_pos [OF prev_xs, of r] by simp
        then have "ordinal xs' r = k" using \<open>prev < r\<close> n_lt ord_r by (simp add: ord')
        moreover have "r \<in> set xs'" using r_in diff by (simp add: set')
        ultimately have "xs' ! k = r" using s' by (simp add: nth_of_ordinal)
        then show ?thesis using below False diff
          by (simp add: update_window_def branch_taken_linorder rv' upd_a ins_a sw xs'_def [symmetric] rp')
      qed
    qed
  qed
qed

section \<open>One pass of the loop\<close>

lemma slot_index_mono: "a < b \<Longrightarrow> slot_index h a < slot_index h b"
  by (simp add: slot_index_def)

lemma slot_index_inj: "slot_index h a = slot_index h b \<longleftrightarrow> a = b"
  using slot_index_mono [of a b h] slot_index_mono [of b a h] by (cases a b rule: linorder_cases) auto

lemma snd_slot [simp]: "snd (slot src h a) = slot_index h a"
  by (simp add: slot_def)

lemma fst_slot [simp]: "fst (slot src h a) = slot_value src h a"
  by (simp add: slot_def)

lemma slot_eq_iff: "slot src h a = slot src h b \<longleftrightarrow> a = b"
  by (auto simp: slot_def slot_index_inj)

lemma length_slots [simp]: "length (slots src h p) = 2 * h + 1"
  by (simp add: slots_def)

lemma set_slots: "set (slots src h p) = slot src h ` {p..<p + 2 * h + 1}"
  by (simp add: slots_def del: upt_Suc)

lemma distinct_slots: "distinct (slots src h p)"
  by (simp add: slots_def distinct_map inj_on_def slot_eq_iff del: upt_Suc)

lemma slots_Cons: "slots src h p = slot src h p # map (slot src h) [Suc p..<p + 2 * h + 1]"
  by (simp add: slots_def upt_conv_Cons del: upt_Suc)

lemma slots_Suc:
  "slots src h (Suc p) = map (slot src h) [Suc p..<p + 2 * h + 1] @ [slot src h (p + 2 * h + 1)]"
  by (simp add: slots_def)

lemma mset_slots_Suc:
  "mset (slots src h (Suc p)) = add_mset (slot src h (p + 2 * h + 1)) (mset (slots src h p) - {#slot src h p#})"
proof -
  define m where "m = map (slot src h) [Suc p..<p + 2 * h + 1]"
  have "slots src h (Suc p) = m @ [slot src h (p + 2 * h + 1)]"
    unfolding m_def by (rule slots_Suc)
  moreover have "slots src h p = slot src h p # m"
    unfolding m_def by (rule slots_Cons)
  ultimately show ?thesis by simp
qed

lemma sort_slots_Suc:
  "sort (slots src h (Suc p)) =
     insort (slot src h (p + 2 * h + 1)) (remove1 (slot src h p) (sort (slots src h p)))"
proof (rule sorted_mset_unique)
  show "sorted (sort (slots src h (Suc p)))" by simp
  show "sorted (insort (slot src h (p + 2 * h + 1)) (remove1 (slot src h p) (sort (slots src h p))))"
    by (simp add: sorted_insort sorted_remove1)
  show "mset (sort (slots src h (Suc p))) =
     mset (insort (slot src h (p + 2 * h + 1)) (remove1 (slot src h p) (sort (slots src h p))))"
    by (simp add: mset_slots_Suc)
qed

lemma slot_value_plain:
  assumes "h \<le> a" "a - h < length src"
  shows "slot_value src h a = src ! (a - h)"
proof -
  from assms have "reflect (length src) (int a - int h) = a - h"
    by (simp add: reflect_def nat_diff_distrib')
  then show ?thesis by (simp add: slot_value_def)
qed

lemma slot_value_left:
  assumes "a < h"
  shows "slot_value src h a = src ! (h - a)"
proof -
  from assms have "reflect (length src) (int a - int h) = h - a"
    by (simp add: reflect_def nat_diff_distrib')
  then show ?thesis by (simp add: slot_value_def)
qed

lemma slot_value_right:
  assumes "length src \<le> a - h" "h \<le> a" "a - h \<le> 2 * (length src - 1)" "0 < length src"
  shows "slot_value src h a = src ! (2 * (length src - 1) - (a - h))"
proof -
  from assms have "reflect (length src) (int a - int h) = nat (2 * (int (length src) - 1) - (int a - int h))"
    by (simp add: reflect_def)
  also have "\<dots> = 2 * (length src - 1) - (a - h)"
    using assms by (simp add: nat_diff_distrib' of_nat_diff)
  finally show ?thesis by (simp add: slot_value_def)
qed

lemma roll_step_eq:
  assumes "deque_front (window_iters s) = Inr (At prev)"
    and "deref (sorted_window s) (At prev) = Inr prev"
    and "deque_pop_front (window_iters s) = Inr popped"
    and "next_sample src (s\<lparr>window_iters := popped\<rparr>) = Inr (nv, s1)"
    and "update_window (At prev) (fst prev) nv (nv, size_incr (values_seen s1))
           (s1\<lparr>values_seen := size_incr (values_seen s1)\<rparr>) = Inr s2"
    and "deref (sorted_window s2) (rank_point s2) = Inr rpair"
    and "array_write (dest s2) (dest_pos s2 + 1) (fst rpair) = Inr d"
  shows "roll_step src s = Inr (s2\<lparr>dest_pos := dest_pos s2 + 1, dest := d, rank_value := fst rpair\<rparr>)"
  using assms by (simp add: roll_step_def Let_def)

lemma size_incr_small: "n + 1 < 2 ^ 64 \<Longrightarrow> size_incr n = n + 1"
  by (simp add: size_incr_def)

lemma size_sub_small: "k \<le> n \<Longrightarrow> n < 2 ^ 64 \<Longrightarrow> k \<le> 2 ^ 64 \<Longrightarrow> size_sub n k = n - k"
  by (simp add: size_sub_exact)

lemma next_sample_source:
  fixes src :: "'a::linorder list"
  assumes "p + h + 1 < length src"
  shows "next_sample src ((state_at src dest0 h k p)\<lparr>window_iters := wi\<rparr>) =
     Inr (slot_value src h (p + 2 * h + 1),
          (state_at src dest0 h k p)\<lparr>window_iters := wi,
             src_pos := min (p + h + 2) (length src),
             src_not_empty := (p + h + 2 < length src),
             window_reflect_pos := 2 * h - 2 * (p + h + 2 - length src)\<rparr>)"
proof -
  have "slot_value src h (p + 2 * h + 1) = src ! Suc (p + h)"
    using assms slot_value_plain [of h "p + 2 * h + 1" src] by (simp add: ac_simps)
  moreover have "min (p + h + 1) (length src) = p + h + 1" using assms by simp
  moreover have "(Suc (Suc (p + h)) \<noteq> length src) = (Suc (Suc (p + h)) < length src)" using assms by auto
  ultimately show ?thesis using assms
    by (simp add: next_sample_def state_at_def array_read_def)
qed

lemma next_sample_reflected:
  fixes src :: "'a::linorder list"
  assumes over: "length src \<le> p + h + 1" and p: "Suc p < length src"
    and h: "h + 1 \<le> length src" and mem: "2 * h + 1 \<le> deque_max_size"
    and wi: "wi = map At (map (slot src h) [Suc p..<p + 2 * h + 1])"
  shows "next_sample src ((state_at src dest0 h k p)\<lparr>window_iters := wi\<rparr>) =
     Inr (slot_value src h (p + 2 * h + 1),
          (state_at src dest0 h k p)\<lparr>window_iters := wi,
             src_pos := min (p + h + 2) (length src),
             src_not_empty := (p + h + 2 < length src),
             window_reflect_pos := 2 * h - 2 * (p + h + 2 - length src)\<rparr>)"
proof -
  define n where "n = length src"
  define e where "e = p + h + 2 - n"
  define w where "w = 2 * h - 2 * e"
  have e: "1 \<le> e" "e \<le> h" "e \<le> n - 1" "p + h + 2 = n + e"
    using over p h by (simp_all add: e_def n_def)
  have old: "2 * h - 2 * (p + h + 1 - n) = w + 2"
    using e by (simp add: w_def e_def)
  have "w + 2 < 2 ^ 64" using e mem by (simp add: w_def deque_max_size_def)
  then have sub: "size_sub (w + 2) 2 = w" by (simp add: size_sub_small)
  have w_lt: "w < 2 * h" "w < deque_max_size" using e mem by (simp_all add: w_def)
  have "length wi = 2 * h" by (simp add: wi)
  have nth: "wi ! w = At (slot src h (Suc p + w))"
    using w_lt by (simp add: wi del: upt_Suc)
  have get: "deque_get wi w = Inr (At (slot src h (Suc p + w)))"
    using w_lt nth \<open>length wi = 2 * h\<close> by (simp add: deque_get_def)
  have "slot src h (Suc p + w) \<in> set (slots src h p)"
    using w_lt unfolding set_slots by (intro imageI) simp
  then have der: "deref (sort (slots src h p)) (At (slot src h (Suc p + w))) = Inr (slot src h (Suc p + w))"
    by (simp add: deref_mem)
  have pos: "Suc p + w - h = n - 1 - e" "h \<le> Suc p + w"
    using e by (simp_all add: w_def)
  have "slot_value src h (Suc p + w) = src ! (n - 1 - e)"
    using slot_value_plain [of h "Suc p + w" src] pos e by (simp add: n_def)
  moreover have "slot_value src h (p + 2 * h + 1) = src ! (2 * (n - 1) - (p + 2 * h + 1 - h))"
    unfolding n_def
  proof (rule slot_value_right)
    show "length src \<le> p + 2 * h + 1 - h" using over by simp
    show "h \<le> p + 2 * h + 1" by simp
    show "p + 2 * h + 1 - h \<le> 2 * (length src - 1)" using e by (simp add: n_def)
    show "0 < length src" using p by (cases src) simp_all
  qed
  moreover have "2 * (n - 1) - (p + 2 * h + 1 - h) = n - 1 - e"
    using e by simp
  ultimately have val: "slot_value src h (Suc p + w) = slot_value src h (p + 2 * h + 1)"
    by simp
  have fin: "min (p + h + 2) n = n" "\<not> p + h + 2 < n" "min (p + h + 1) n = n" "\<not> p + h + 1 < n"
    using e over by (simp_all add: n_def)
  have w': "2 * h - 2 * (p + h + 2 - n) = w" by (simp add: w_def e_def)
  show ?thesis
    using over fin old sub get der val w'
    by (simp add: next_sample_def state_at_def Let_def n_def [symmetric])
qed

lemma next_sample_state_at:
  fixes src :: "'a::linorder list"
  assumes p: "Suc p < length src"
    and h: "h + 1 \<le> length src" and mem: "2 * h + 1 \<le> deque_max_size"
    and wi: "wi = map At (map (slot src h) [Suc p..<p + 2 * h + 1])"
  shows "next_sample src ((state_at src dest0 h k p)\<lparr>window_iters := wi\<rparr>) =
     Inr (slot_value src h (p + 2 * h + 1),
          (state_at src dest0 h k p)\<lparr>window_iters := wi,
             src_pos := min (p + h + 2) (length src),
             src_not_empty := (p + h + 2 < length src),
             window_reflect_pos := 2 * h - 2 * (p + h + 2 - length src)\<rparr>)"
proof (cases "p + h + 1 < length src")
  case True
  then show ?thesis by (rule next_sample_source)
next
  case False
  then have "length src \<le> p + h + 1" by simp
  then show ?thesis using p h mem wi by (rule next_sample_reflected)
qed

lemma dest_write_next:
  assumes "Suc p < length dest0"
  shows "(map f [0..<p + 1] @ drop (p + 1) dest0)[Suc p := f (Suc p)]
           = map f [0..<Suc p + 1] @ drop (Suc p + 1) dest0"
proof -
  have "drop (Suc p) dest0 = dest0 ! Suc p # drop (Suc (Suc p)) dest0"
    using assms by (simp add: Cons_nth_drop_Suc)
  then show ?thesis
    by (simp add: list_update_append)
qed

lemma roll_step_state_at:
  fixes src :: "'a::linorder list"
  assumes h: "h + 1 \<le> length src" and k: "k \<le> 2 * h" and d: "length src \<le> length dest0"
    and mem: "length src < 2 ^ 63" "2 * h + 1 \<le> deque_max_size"
    and p: "Suc p < length src"
  shows "roll_step src (state_at src dest0 h k p) = Inr (state_at src dest0 h k (Suc p))"
proof -
  define s where "s = state_at src dest0 h k p"
  define prev where "prev = slot src h p"
  define nxt where "nxt = slot src h (p + 2 * h + 1)"
  define popped where "popped = map At (map (slot src h) [Suc p..<p + 2 * h + 1])"
  define xs where "xs = sort (slots src h p)"
  define xs' where "xs' = sort (slots src h (Suc p))"
  define s1 where "s1 = s\<lparr>window_iters := popped,
             src_pos := min (p + h + 2) (length src),
             src_not_empty := (p + h + 2 < length src),
             window_reflect_pos := 2 * h - 2 * (p + h + 2 - length src)\<rparr>"
  define s1' where "s1' = s1\<lparr>values_seen := size_incr (values_seen s1)\<rparr>"
  define s2 where "s2 = s1'\<lparr>sorted_window := xs', window_iters := window_iters s1' @ [At nxt],
            rank_point := At (xs' ! k)\<rparr>"
  have sel: "window_iters s = At prev # popped" "sorted_window s = xs"
    by (simp_all add: s_def state_at_def slots_Cons prev_def popped_def xs_def)
  have prev_in: "prev \<in> set xs"
    unfolding xs_def prev_def set_sort set_slots by (intro imageI) simp
  have 1: "deque_front (window_iters s) = Inr (At prev)"
    by (simp add: sel deque_front_def)
  have 2: "deref (sorted_window s) (At prev) = Inr prev"
    using prev_in by (simp add: sel deref_mem)
  have 3: "deque_pop_front (window_iters s) = Inr popped"
    by (simp add: sel deque_pop_front_def)
  have 4: "next_sample src (s\<lparr>window_iters := popped\<rparr>) = Inr (fst nxt, s1)"
    unfolding s_def s1_def nxt_def fst_slot
    using p h mem(2) popped_def by (rule next_sample_state_at)
  have "values_seen s1 = 2 * h + 1 + p" by (simp add: s1_def s_def state_at_def)
  moreover have "2 * h + 1 + p + 1 < (2::nat) ^ 64"
    using mem p by (simp add: deque_max_size_def)
  ultimately have seen: "size_incr (values_seen s1) = 2 * h + 1 + Suc p"
    by (simp add: size_incr_small)
  then have pair: "(fst nxt, size_incr (values_seen s1)) = nxt"
    by (simp add: nxt_def slot_def slot_index_def)
  have xs'_eq: "insort nxt (remove1 prev (sorted_window s1')) = xs'"
    by (simp add: s1'_def s1_def sel xs_def xs'_def nxt_def prev_def sort_slots_Suc)
  have "update_window (At prev) (fst prev) (fst nxt) nxt s1' =
     Inr (s1'\<lparr>sorted_window := insort nxt (remove1 prev (sorted_window s1')),
            window_iters := window_iters s1' @ [At nxt],
            rank_point := At (insort nxt (remove1 prev (sorted_window s1')) ! k)\<rparr>)"
  proof (rule update_window_correct)
    have sw: "sorted_window s1' = xs" by (simp add: s1'_def s1_def sel)
    show "sorted (sorted_window s1')" by (simp add: sw xs_def)
    show "distinct (sorted_window s1')" by (simp add: sw xs_def distinct_slots)
    show "k < length (sorted_window s1')" using k by (simp add: sw xs_def)
    show "rank_point s1' = At (sorted_window s1' ! k)"
      by (simp add: sw s1'_def s1_def s_def state_at_def xs_def)
    show "rank_value s1' = fst (sorted_window s1' ! k)"
      by (simp add: sw s1'_def s1_def s_def state_at_def xs_def output_at_def)
    show "prev \<in> set (sorted_window s1')" using prev_in by (simp add: sw)
    show "\<forall>x\<in>set (sorted_window s1'). x \<noteq> prev \<longrightarrow> snd prev < snd x"
      unfolding sw xs_def set_sort set_slots prev_def
      by (auto simp: slot_eq_iff intro!: slot_index_mono)
    show "\<forall>x\<in>set (sorted_window s1'). snd x < snd nxt"
      unfolding sw xs_def set_sort set_slots nxt_def
      by (auto intro!: slot_index_mono)
  qed
  then have "update_window (At prev) (fst prev) (fst nxt) nxt s1' = Inr s2"
    unfolding xs'_eq s2_def .
  then have 5: "update_window (At prev) (fst prev) (fst nxt) (fst nxt, size_incr (values_seen s1))
           (s1\<lparr>values_seen := size_incr (values_seen s1)\<rparr>) = Inr s2"
    unfolding pair s1'_def .
  have len': "length xs' = 2 * h + 1" by (simp add: xs'_def)
  have 6: "deref (sorted_window s2) (rank_point s2) = Inr (xs' ! k)"
    using k len' by (simp add: s2_def deref_mem)
  have dest2: "dest s2 = map (output_at src h k) [0..<p + 1] @ drop (p + 1) dest0" "dest_pos s2 = p"
    by (simp_all add: s2_def s1'_def s1_def s_def state_at_def)
  have 7: "array_write (dest s2) (dest_pos s2 + 1) (fst (xs' ! k))
            = Inr (map (output_at src h k) [0..<Suc p + 1] @ drop (Suc p + 1) dest0)"
    using p d dest_write_next [of p dest0 "output_at src h k"]
    by (simp add: dest2 array_write_def output_at_def xs'_def del: upt_Suc)
  have "roll_step src s = Inr (s2\<lparr>dest_pos := dest_pos s2 + 1,
           dest := map (output_at src h k) [0..<Suc p + 1] @ drop (Suc p + 1) dest0,
           rank_value := fst (xs' ! k)\<rparr>)"
    using 1 2 3 4 5 6 7 by (rule roll_step_eq)
  also have "s2\<lparr>dest_pos := dest_pos s2 + 1,
           dest := map (output_at src h k) [0..<Suc p + 1] @ drop (Suc p + 1) dest0,
           rank_value := fst (xs' ! k)\<rparr> = state_at src dest0 h k (Suc p)"
    using seen
    by (simp add: s2_def s1'_def s1_def s_def state_at_def xs'_def output_at_def popped_def slots_Suc nxt_def
          del: upt_Suc)
  finally show ?thesis by (simp add: s_def)
qed

section \<open>The result of the initialisation\<close>

lemma reflect_fill_result:
  assumes "j \<le> length wi" "j \<le> deque_max_size" "pos + j < length src"
  shows "reflect_fill src j pos wi
           = Inr (map (\<lambda>i. src ! (pos + j - i)) [0..<j] @ drop j wi, pos + j)"
  using assms
proof (induction j arbitrary: pos wi)
  case 0
  then show ?case by simp
next
  case (Suc j)
  have rd: "array_read src (pos + 1) = Inr (src ! (pos + 1))"
    using Suc.prems by (simp add: array_read_def)
  have st: "deque_set wi j (src ! (pos + 1)) = Inr (wi[j := src ! (pos + 1)])"
    using Suc.prems by (simp add: deque_set_def)
  have "reflect_fill src j (pos + 1) (wi[j := src ! (pos + 1)])
      = Inr (map (\<lambda>i. src ! (pos + 1 + j - i)) [0..<j] @ drop j (wi[j := src ! (pos + 1)]), pos + 1 + j)"
    using Suc.prems by (intro Suc.IH) simp_all
  moreover have "drop j (wi[j := src ! (pos + 1)]) = src ! (pos + 1) # drop (Suc j) wi"
    using Suc.prems by (simp add: drop_update_cancel flip: Cons_nth_drop_Suc)
  ultimately show ?case
    using rd st by simp
qed

lemma sort_snoc:
  fixes xs :: "'b::linorder list"
  shows "sort (xs @ [x]) = insort x (sort xs)"
  by (rule sorted_mset_unique) (simp_all add: sorted_insort)

lemma slot_fresh: "slot src h j \<notin> set (sort (map (slot src h) [0..<j]))"
  by (auto simp: slot_eq_iff)

lemma iters_update:
  assumes "length a = j" "j < n"
  shows "(map At a @ replicate (n - j) Singular)[j := At x]
           = map At (a @ [x]) @ replicate (n - Suc j) Singular"
proof -
  from assms obtain m where m: "n - j = Suc m" "n - Suc j = m"
    by (cases "n - j") auto
  show ?thesis using assms by (simp add: m list_update_append)
qed

lemma insert_reflected_result:
  fixes src :: "'a::linorder list"
  assumes "j \<le> h" "2 * h + 1 \<le> deque_max_size" "h < length src"
  shows "insert_reflected h (map (\<lambda>i. src ! (h - i)) [0..<h + 1]) j
           (j, sort (map (slot src h) [0..<j]),
            map At (map (slot src h) [0..<j]) @ replicate (2 * h + 1 - j) Singular)
         = Inr (h, sort (map (slot src h) [0..<h]),
                map At (map (slot src h) [0..<h]) @ replicate (h + 1) Singular)"
  using assms(1)
proof (induction "h - j" arbitrary: j)
  case 0
  then have "j = h" by simp
  then show ?case by (subst insert_reflected.simps) simp
next
  case (Suc d)
  then have lt: "j < h" by simp
  let ?wi = "map (\<lambda>i. src ! (h - i)) [0..<h + 1]"
  have get: "deque_get ?wi j = Inr (slot_value src h j)"
    using lt assms(2) by (simp add: deque_get_def slot_value_left nth_append del: upt_Suc)
  have pair: "(slot_value src h j, j) = slot src h j"
    using lt by (simp add: slot_def slot_index_def)
  have ins: "set_insert (slot src h j) (sort (map (slot src h) [0..<j]))
             = (sort (map (slot src h) [0..<Suc j]), At (slot src h j))"
    using slot_fresh [of src h j] by (simp add: set_insert_def sort_snoc)
  have upd: "deque_set (map At (map (slot src h) [0..<j]) @ replicate (2 * h + 1 - j) Singular) j
               (At (slot src h j))
             = Inr (map At (map (slot src h) [0..<Suc j]) @ replicate (2 * h + 1 - Suc j) Singular)"
    using lt assms(2) iters_update [of "map (slot src h) [0..<j]" j "2 * h + 1" "slot src h j"]
    by (simp add: deque_set_def)
  have inc: "size_incr j = Suc j"
    using lt assms(2) by (simp add: size_incr_small deque_max_size_def)
  have "insert_reflected h ?wi (Suc j)
           (Suc j, sort (map (slot src h) [0..<Suc j]),
            map At (map (slot src h) [0..<Suc j]) @ replicate (2 * h + 1 - Suc j) Singular)
         = Inr (h, sort (map (slot src h) [0..<h]),
                map At (map (slot src h) [0..<h]) @ replicate (h + 1) Singular)"
    using Suc.hyps(2) lt by (intro Suc.hyps(1)) simp_all
  then show ?case
    using lt get pair ins upd inc
    by (subst insert_reflected.simps) (simp del: upt_Suc)
qed

lemma insert_forward_result:
  fixes src :: "'a::linorder list"
  assumes "h \<le> j" "j \<le> 2 * h + 1" "2 * h + 1 \<le> deque_max_size" "h < length src"
  shows "insert_forward (2 * h + 1) j
           (take (2 * h + 1 - j) (map (\<lambda>i. src ! (h - i)) [0..<h + 1]), j,
            sort (map (slot src h) [0..<j]),
            map At (map (slot src h) [0..<j]) @ replicate (2 * h + 1 - j) Singular)
         = Inr ([], 2 * h + 1, sort (slots src h 0), map At (slots src h 0))"
  using assms(1,2)
proof (induction "2 * h + 1 - j" arbitrary: j)
  case 0
  then have "j = 2 * h + 1" by simp
  then show ?case by (subst insert_forward.simps) (simp add: slots_def)
next
  case (Suc d)
  then have lt: "j < 2 * h + 1" by simp
  let ?wi = "map (\<lambda>i. src ! (h - i)) [0..<h + 1]"
  have len: "length (take (2 * h + 1 - j) ?wi) = 2 * h + 1 - j"
    using Suc.prems by simp
  have "last (take (2 * h + 1 - j) ?wi) = ?wi ! (2 * h - j)"
    using lt Suc.prems len by (simp add: last_conv_nth del: upt_Suc)
  also have "\<dots> = src ! (j - h)"
    using lt Suc.prems by (simp del: upt_Suc)
  also have "\<dots> = slot_value src h j"
    using lt Suc.prems assms(4) by (simp add: slot_value_plain)
  finally have bk: "deque_back (take (2 * h + 1 - j) ?wi) = Inr (slot_value src h j)"
    using lt len by (auto simp: deque_back_def simp del: upt_Suc)
  have pop: "deque_pop_back (take (2 * h + 1 - j) ?wi) = Inr (take (2 * h + 1 - Suc j) ?wi)"
    using lt len by (auto simp: deque_pop_back_def butlast_take simp del: upt_Suc)
  have pair: "(slot_value src h j, j) = slot src h j"
    using lt by (simp add: slot_def slot_index_def)
  have ins: "set_insert (slot src h j) (sort (map (slot src h) [0..<j]))
             = (sort (map (slot src h) [0..<Suc j]), At (slot src h j))"
    using slot_fresh [of src h j] by (simp add: set_insert_def sort_snoc)
  have upd: "deque_set (map At (map (slot src h) [0..<j]) @ replicate (2 * h + 1 - j) Singular) j
               (At (slot src h j))
             = Inr (map At (map (slot src h) [0..<Suc j]) @ replicate (2 * h + 1 - Suc j) Singular)"
    using lt assms(3) iters_update [of "map (slot src h) [0..<j]" j "2 * h + 1" "slot src h j"]
    by (simp add: deque_set_def)
  have inc: "size_incr j = Suc j"
    using lt assms(3) by (simp add: size_incr_small deque_max_size_def)
  have "insert_forward (2 * h + 1) (Suc j)
           (take (2 * h + 1 - Suc j) ?wi, Suc j,
            sort (map (slot src h) [0..<Suc j]),
            map At (map (slot src h) [0..<Suc j]) @ replicate (2 * h + 1 - Suc j) Singular)
         = Inr ([], 2 * h + 1, sort (slots src h 0), map At (slots src h 0))"
    using Suc.hyps(2) lt Suc.prems by (intro Suc.hyps(1)) simp_all
  then show ?case
    using lt bk pop pair ins upd inc
    by (subst insert_forward.simps) (simp del: upt_Suc)
qed

lemma window_setup_result:
  fixes src :: "'a::{linorder,zero} list"
  assumes "h < length src" "2 * h + 1 \<le> deque_max_size"
  shows "window_setup src h (h + 1) (2 * h + 1) (replicate (2 * h + 1) Singular)
           = Inr (2 * h + 1, sort (slots src h 0), map At (slots src h 0), h + 1)"
proof -
  let ?wi = "map (\<lambda>i. src ! (h - i)) [0..<h + 1]"
  have 1: "deque_create (h + 1) (0::'a) = Inr (replicate (h + 1) 0)"
    using assms(2) by (simp add: deque_create_def)
  have 2: "array_read src 0 = Inr (src ! 0)"
    using assms(1) by (cases src) (simp_all add: array_read_def)
  have 3: "deque_set (replicate (h + 1) (0::'a)) h (src ! 0) = Inr ((replicate (h + 1) 0)[h := src ! 0])"
    using assms(2) by (simp add: deque_set_def)
  have "reflect_fill src h 0 ((replicate (h + 1) 0)[h := src ! 0])
          = Inr (map (\<lambda>i. src ! (0 + h - i)) [0..<h] @ drop h ((replicate (h + 1) 0)[h := src ! 0]), 0 + h)"
  proof (rule reflect_fill_result)
    show "h \<le> length ((replicate (h + 1) (0::'a))[h := src ! 0])"
      by (simp only: length_list_update length_replicate)
    show "h \<le> deque_max_size" using assms(2) by simp
    show "0 + h < length src" using assms(1) by simp
  qed
  moreover have "drop h ((replicate (h + 1) (0::'a))[h := src ! 0]) = [src ! 0]"
  proof -
    have "replicate (h + 1) (0::'a) = replicate h 0 @ [0]"
      by (simp add: replicate_append_same)
    then show ?thesis by (simp only: list_update_length [of "replicate h 0" 0 "[]", simplified] length_replicate) simp
  qed
  ultimately have 4: "reflect_fill src h 0 ((replicate (h + 1) 0)[h := src ! 0]) = Inr (?wi, h)"
    by simp
  have 5: "insert_reflected h ?wi 0 (0, [], replicate (2 * h + 1) Singular)
         = Inr (h, sort (map (slot src h) [0..<h]),
                map At (map (slot src h) [0..<h]) @ replicate (h + 1) Singular)"
    using insert_reflected_result [of 0 h src] assms by simp
  have "take (2 * h + 1 - h) ?wi = ?wi" by simp
  then have 6: "insert_forward (2 * h + 1) h
           (?wi, h, sort (map (slot src h) [0..<h]),
            map At (map (slot src h) [0..<h]) @ replicate (h + 1) Singular)
         = Inr ([], 2 * h + 1, sort (slots src h 0), map At (slots src h 0))"
    using insert_forward_result [of h h src] assms by simp
  show ?thesis
    unfolding window_setup_def by (simp only: 1 2 3 4 5 6 bindE_Inr prod.case Let_def)
qed

section \<open>Rounding to a double\<close>

lemma round_even_of_int [simp]: "round_even (of_int n) = n"
  by (simp add: round_even_def)

lemma round_even_le:
  assumes "y \<le> of_int n"
  shows "round_even y \<le> n"
proof -
  have f: "\<lfloor>y\<rfloor> \<le> n" using assms by (simp add: floor_le_iff)
  show ?thesis
  proof (cases "\<lfloor>y\<rfloor> = n")
    case True
    then have "of_int n \<le> y" by (metis of_int_floor_le)
    with assms have "y = of_int n" by simp
    then show ?thesis by simp
  next
    case False
    with f have "\<lfloor>y\<rfloor> + 1 \<le> n" by simp
    then show ?thesis using f by (auto simp: round_even_def Let_def)
  qed
qed

lemma round_even_nonneg: "0 \<le> y \<Longrightarrow> 0 \<le> round_even y"
  by (auto simp: round_even_def Let_def)

lemma bitlen_le:
  assumes "n < 2 ^ k"
  shows "bitlen n \<le> int k"
proof (cases "0 < n")
  case True
  from bitlen_bounds [OF True] have "(2::int) ^ nat (bitlen n - 1) \<le> n" by (rule conjunct1)
  from this assms have "(2::int) ^ nat (bitlen n - 1) < 2 ^ k" by (rule le_less_trans)
  then have "nat (bitlen n - 1) < k" by simp
  then show ?thesis by simp
next
  case False
  then have "bitlen n = 0" by (simp add: bitlen_eq_zero_iff)
  then show ?thesis by simp
qed

lemma shift_le:
  fixes x :: real
  assumes "0 \<le> x" "x < 2 ^ p"
  shows "nat (bitlen \<lfloor>\<bar>x * 2 ^ N\<bar>\<rfloor> - int p) \<le> N"
proof -
  define n where "n = \<lfloor>\<bar>x * 2 ^ N\<bar>\<rfloor>"
  have "\<bar>x * 2 ^ N\<bar> = x * 2 ^ N" using assms(1) by simp
  also have "\<dots> < 2 ^ p * 2 ^ N" using assms(2) by simp
  finally have up: "\<bar>x * 2 ^ N\<bar> < (2::real) ^ (p + N)" by (simp add: power_add)
  have "of_int n \<le> \<bar>x * 2 ^ N\<bar>" unfolding n_def by (rule of_int_floor_le)
  from this up have "of_int n < (2::real) ^ (p + N)" by (rule le_less_trans)
  then have "n < 2 ^ (p + N)" by simp
  then have "bitlen n \<le> int (p + N)" by (rule bitlen_le)
  then show ?thesis unfolding n_def by simp
qed

lemma round_binary_nonneg:
  assumes "0 \<le> x"
  shows "0 \<le> round_binary p N x"
proof -
  have "0 \<le> x * 2 ^ N / 2 ^ s" for s :: nat using assms by simp
  then show ?thesis
    unfolding round_binary_def Let_def
    by (intro divide_nonneg_nonneg mult_nonneg_nonneg) (simp_all add: round_even_nonneg)
qed

lemma round_binary_le_nat:
  assumes "0 \<le> x" "x \<le> of_nat m" "m < 2 ^ p"
  shows "round_binary p N x \<le> of_nat m"
proof -
  define s where "s = nat (bitlen \<lfloor>\<bar>x * 2 ^ N\<bar>\<rfloor> - int p)"
  have "real m < 2 ^ p" using assms(3) by simp
  with assms(2) have "x < 2 ^ p" by (rule le_less_trans)
  with assms(1) have s: "s \<le> N" unfolding s_def by (rule shift_le)
  then have pw: "(2::real) ^ N = 2 ^ (N - s) * 2 ^ s"
    by (simp flip: power_add)
  have "x * 2 ^ N / 2 ^ s = x * 2 ^ (N - s)" by (simp add: pw)
  also have "\<dots> \<le> of_nat m * 2 ^ (N - s)" using assms(2) by simp
  also have "\<dots> = of_int (int m * 2 ^ (N - s))" by simp
  finally have "round_even (x * 2 ^ N / 2 ^ s) \<le> int m * 2 ^ (N - s)"
    by (rule round_even_le)
  then have "real_of_int (round_even (x * 2 ^ N / 2 ^ s)) \<le> real_of_int (int m * 2 ^ (N - s))"
    by (simp only: of_int_le_iff)
  then have "of_int (round_even (x * 2 ^ N / 2 ^ s)) * 2 ^ s \<le> real_of_int (int m * 2 ^ (N - s)) * 2 ^ s"
    by (rule mult_right_mono) simp
  also have "\<dots> = of_nat m * 2 ^ N" by (simp add: pw)
  finally show ?thesis
    unfolding round_binary_def Let_def s_def [symmetric]
    by (simp add: divide_le_eq)
qed

lemma round_binary_of_nat:
  assumes "m < 2 ^ p"
  shows "round_binary p N (of_nat m) = of_nat m"
proof -
  define s where "s = nat (bitlen \<lfloor>\<bar>real m * 2 ^ N\<bar>\<rfloor> - int p)"
  have "real m < 2 ^ p" using assms by simp
  then have s: "s \<le> N" unfolding s_def by (intro shift_le) simp_all
  then have pw: "(2::real) ^ N = 2 ^ (N - s) * 2 ^ s"
    by (simp flip: power_add)
  have "real m * 2 ^ N / 2 ^ s = of_int (int m * 2 ^ (N - s))" by (simp add: pw)
  then have "round_even (real m * 2 ^ N / 2 ^ s) = int m * 2 ^ (N - s)"
    by (simp only: round_even_of_int)
  then have "of_int (round_even (real m * 2 ^ N / 2 ^ s)) * 2 ^ s = real m * 2 ^ (N - s) * 2 ^ s"
    by simp
  also have "\<dots> = real m * 2 ^ N" by (simp add: pw)
  finally show ?thesis
    unfolding round_binary_def Let_def s_def [symmetric] by simp
qed

lemma round_binary_eq:
  fixes x :: real
  assumes "2 ^ q \<le> \<bar>x\<bar> * 2 ^ N" "\<bar>x\<bar> * 2 ^ N < 2 ^ Suc q" "p \<le> Suc q"
  shows "round_binary p N x
           = of_int (round_even (x * 2 ^ N / 2 ^ (Suc q - p))) * 2 ^ (Suc q - p) / 2 ^ N"
proof -
  define n where "n = \<lfloor>\<bar>x * 2 ^ N\<bar>\<rfloor>"
  have "\<bar>(2::real) ^ N\<bar> = 2 ^ N" by (rule abs_of_nonneg) simp
  then have abs: "\<bar>x * 2 ^ N\<bar> = \<bar>x\<bar> * 2 ^ N" by (simp only: abs_mult)
  have "of_int (2 ^ q) \<le> \<bar>x\<bar> * 2 ^ N" using assms(1) by (simp only: of_int_power of_int_numeral)
  then have lo: "2 ^ q \<le> n" unfolding n_def abs by (simp only: le_floor_iff)
  have le: "of_int n \<le> \<bar>x\<bar> * 2 ^ N" unfolding n_def abs by (rule of_int_floor_le)
  from le assms(2) have "of_int n < (2::real) ^ Suc q" by (rule le_less_trans)
  then have "real_of_int n < of_int (2 ^ Suc q)" by (simp only: of_int_power of_int_numeral)
  then have hi: "n < 2 ^ Suc q" by (simp only: of_int_less_iff)
  have "(0::int) < 2 ^ q" by (rule zero_less_power) simp
  from this lo have pos: "0 < n" by (rule less_le_trans)
  from bitlen_bounds [OF pos] have b1: "(2::int) ^ nat (bitlen n - 1) \<le> n"
    and b2: "n < 2 ^ nat (bitlen n)" by (rule conjunct1, rule conjunct2)
  from b1 hi have "(2::int) ^ nat (bitlen n - 1) < 2 ^ Suc q" by (rule le_less_trans)
  then have c1: "nat (bitlen n - 1) < Suc q" by (rule power_less_imp_less_exp [rotated]) simp
  from lo b2 have "(2::int) ^ q < 2 ^ nat (bitlen n)" by (rule le_less_trans)
  then have c2: "q < nat (bitlen n)" by (rule power_less_imp_less_exp [rotated]) simp
  from c1 c2 have "bitlen n = int (Suc q)" by linarith
  then have "nat (bitlen n - int p) = Suc q - p" using assms(3) by linarith
  then show ?thesis
    unfolding round_binary_def Let_def n_def [symmetric] by (simp only:)
qed

lemma round_double_unit_binade:
  assumes "1 \<le> x" "x < 2"
  shows "round_double x = of_int (round_even (x * 2 ^ 52)) / 2 ^ 52"
proof -
  have ax: "\<bar>x\<bar> = x" using assms(1) by simp
  have 1: "2 ^ 1074 \<le> \<bar>x\<bar> * 2 ^ 1074" unfolding ax using assms(1) by simp
  have 2: "\<bar>x\<bar> * 2 ^ 1074 < 2 ^ Suc 1074" unfolding ax using assms(2) by simp
  have s: "Suc 1074 - 53 = (1022::nat)" by simp
  have pw: "(2::real) ^ 1074 = 2 ^ 52 * 2 ^ 1022" by simp
  have "round_double x = of_int (round_even (x * 2 ^ 1074 / 2 ^ 1022)) * 2 ^ 1022 / 2 ^ 1074"
    unfolding round_double_def using round_binary_eq [OF 1 2, of 53] by (simp only: s)
  also have "x * 2 ^ 1074 / 2 ^ 1022 = x * 2 ^ 52" unfolding pw by simp
  also have "of_int (round_even (x * 2 ^ 52)) * 2 ^ 1022 / 2 ^ 1074
      = of_int (round_even (x * 2 ^ 52)) / (2 ^ 52 :: real)" unfolding pw by simp
  finally show ?thesis .
qed

section \<open>The rank position within the window\<close>

lemma boost_round_bounds:
  assumes "0 \<le> v" "v \<le> of_nat m"
  shows "0 \<le> boost_round v" "boost_round v \<le> int m"
proof -
  from assms(1) have br: "boost_round v = \<lfloor>v + 1 / 2\<rfloor>" by (simp add: boost_round_def)
  show "0 \<le> boost_round v" using assms(1) by (simp add: br)
  have "v + 1 / 2 < of_int (int m + 1)" using assms(2) by simp
  then have "\<lfloor>v + 1 / 2\<rfloor> < int m + 1" by (simp only: floor_less_iff)
  then show "boost_round v \<le> int m" by (simp add: br)
qed

lemma rank_pos_of_le:
  assumes "0 \<le> rank" "rank \<le> 1" "m < 2 ^ 53"
  shows "rank_pos_of rank m \<le> m"
proof -
  have d: "double_of_size m = of_nat m"
    unfolding double_of_size_def round_double_def using assms(3) by (rule round_binary_of_nat)
  have 0: "0 \<le> rank * of_nat m" using assms(1) by simp
  have "rank * of_nat m \<le> 1 * of_nat m"
    using assms(2) by (intro mult_right_mono) simp_all
  then have 1: "rank * of_nat m \<le> of_nat m" by simp
  have "0 \<le> double_mul rank (double_of_size m)"
    unfolding double_mul_def round_double_def d using 0 by (rule round_binary_nonneg)
  moreover have "double_mul rank (double_of_size m) \<le> of_nat m"
    unfolding double_mul_def round_double_def d using 0 1 assms(3) by (rule round_binary_le_nat)
  ultimately have "boost_round (double_mul rank (double_of_size m)) \<le> int m"
    by (rule boost_round_bounds(2))
  then show ?thesis by (simp add: rank_pos_of_def)
qed

text \<open>The rank position where the product is a whole number.\<close>

lemma rank_pos_of_whole:
  assumes "m < 2 ^ 53" "j < 2 ^ 53" "rank * of_nat m = of_nat j"
  shows "rank_pos_of rank m = j"
proof -
  have d: "double_of_size m = of_nat m"
    unfolding double_of_size_def round_double_def using assms(1) by (rule round_binary_of_nat)
  have "double_mul rank (double_of_size m) = of_nat j"
    unfolding double_mul_def round_double_def d assms(3) using assms(2) by (rule round_binary_of_nat)
  then show ?thesis by (simp add: rank_pos_of_def boost_round_def)
qed

lemma rank_pos_in_window:
  assumes "valid_input src dest0 half_length rank" and "in_memory src half_length"
  shows "rank_pos_of rank (2 * unat half_length) \<le> 2 * unat half_length"
  using assms by (intro rank_pos_of_le) (simp_all add: valid_input_def in_memory_def)

lemma double_of_size_exact: "n < 2 ^ 53 \<Longrightarrow> double_of_size n = of_nat n"
  unfolding double_of_size_def round_double_def by (rule round_binary_of_nat)

lemma rank_pos_of_product:
  assumes "valid_input src dest0 half_length rank" and "in_memory src half_length"
  shows "rank_pos_of rank (2 * unat half_length)
           = nat (boost_round (round_double (rank * of_nat (2 * unat half_length))))"
proof -
  have "2 * unat half_length < 2 ^ 53" using assms(2) by (simp add: in_memory_def)
  then have "double_of_size (2 * unat half_length) = of_nat (2 * unat half_length)"
    by (rule double_of_size_exact)
  then show ?thesis by (simp only: rank_pos_of_def double_mul_def)
qed

text \<open>
  The rounding of the product shows at the rank \<^verbatim>\<open>0.15\<close> with a window of \<open>11\<close> samples.
  The \<^verbatim>\<open>double\<close> nearest to \<open>15/100\<close> lies just below it, and ten times that
  \<^verbatim>\<open>double\<close> is nearer to \<open>3/2\<close> than to the \<^verbatim>\<open>double\<close> before \<open>3/2\<close>: the product
  of line 98 is \<open>3/2\<close> and the rank position is \<open>2\<close>, where the product taken exactly
  would round to \<open>1\<close>.
\<close>

lemma round_double_15_100: "round_double (15 / 100) = 5404319552844595 / 2 ^ 55"
proof -
  have pw: "(2::real) ^ 1074 = 2 ^ 55 * 2 ^ 1019" "(2::real) ^ 1074 = 8 * 2 ^ 1071"
    "(2::real) ^ Suc 1071 = 2 * 2 ^ 1071" by simp_all
  have 1: "2 ^ 1071 \<le> \<bar>15 / 100 :: real\<bar> * 2 ^ 1074" unfolding pw by simp
  have 2: "\<bar>15 / 100 :: real\<bar> * 2 ^ 1074 < 2 ^ Suc 1071" unfolding pw by simp
  have s: "Suc 1071 - 53 = (1019::nat)" by simp
  have "round_double (15 / 100)
      = of_int (round_even (15 / 100 * 2 ^ 1074 / 2 ^ 1019)) * 2 ^ 1019 / 2 ^ 1074"
    unfolding round_double_def using round_binary_eq [OF 1 2, of 53] by (simp only: s)
  also have "(15 / 100 * 2 ^ 1074 / 2 ^ 1019 :: real) = 27021597764222976 / 5"
    unfolding pw(1) by simp
  also have "round_even (27021597764222976 / 5) = 5404319552844595"
    by (simp add: round_even_def Let_def)
  also have "of_int 5404319552844595 * 2 ^ 1019 / 2 ^ 1074 = (5404319552844595 / 2 ^ 55 :: real)"
    unfolding pw(1) by simp
  finally show ?thesis .
qed

lemma double_mul_15_100: "double_mul (5404319552844595 / 2 ^ 55) (double_of_size 10) = 3 / 2"
proof -
  have "double_of_size 10 = of_nat 10" by (rule double_of_size_exact) simp
  then have "double_mul (5404319552844595 / 2 ^ 55) (double_of_size 10)
      = round_double (5404319552844595 / 2 ^ 55 * 10)"
    by (simp add: double_mul_def)
  also have "\<dots> = of_int (round_even (5404319552844595 / 2 ^ 55 * 10 * 2 ^ 52)) / 2 ^ 52"
    by (rule round_double_unit_binade) simp_all
  also have "(5404319552844595 / 2 ^ 55 * 10 * 2 ^ 52 :: real) = 27021597764222975 / 4" by simp
  also have "round_even (27021597764222975 / 4) = 6755399441055744"
    by (simp add: round_even_def Let_def)
  finally show ?thesis by simp
qed

lemma rank_pos_of_15_100: "rank_pos_of (5404319552844595 / 2 ^ 55) 10 = 2"
  unfolding rank_pos_of_def double_mul_15_100 by (simp add: boost_round_def)

lemma exact_product_15_100: "nat (boost_round (5404319552844595 / 2 ^ 55 * 10)) = 1"
  by (simp add: boost_round_def)

text \<open>At the rank \<open>1/8\<close> the product is \<open>5/4\<close>, a \<^verbatim>\<open>double\<close>, and the rank position is \<open>1\<close>.\<close>

lemma double_mul_1_8: "double_mul (1 / 8) (double_of_size 10) = 5 / 4"
proof -
  have "double_of_size 10 = of_nat 10" by (rule double_of_size_exact) simp
  then have "double_mul (1 / 8) (double_of_size 10) = round_double (5 / 4)"
    by (simp add: double_mul_def)
  also have "\<dots> = of_int (round_even (5 / 4 * 2 ^ 52)) / 2 ^ 52"
    by (rule round_double_unit_binade) simp_all
  also have "(5 / 4 * 2 ^ 52 :: real) = of_int 5629499534213120" by simp
  also have "round_even (of_int 5629499534213120) = 5629499534213120"
    by (rule round_even_of_int)
  finally show ?thesis by simp
qed

lemma rank_pos_of_1_8: "rank_pos_of (1 / 8) 10 = 1"
  unfolding rank_pos_of_def double_mul_1_8 by (simp add: boost_round_def)

section \<open>The state after the initialisation\<close>

lemma initial_state_result:
  fixes src :: "'a::{linorder,zero} list"
  assumes h: "h < length src" and d: "length src \<le> length dest0"
    and mem: "2 * h + 1 \<le> deque_max_size" and k: "rank_pos_of rank (2 * h) = k" "k \<le> 2 * h"
  shows "initial_state src dest0 h (h + 1) (2 * h) (2 * h + 1) rank = Inr (state_at src dest0 h k 0)"
proof -
  define xs where "xs = sort (slots src h 0)"
  have xs: "sorted xs" "distinct xs" "length xs = 2 * h + 1"
    by (simp_all add: xs_def distinct_slots)
  then obtain x xs' where cons: "xs = x # xs'" by (cases xs) auto
  have 1: "deque_create (2 * h + 1) (Singular :: ('a \<times> nat) iterator) = Inr (replicate (2 * h + 1) Singular)"
    using mem by (simp add: deque_create_def)
  have 2: "window_setup src h (h + 1) (2 * h + 1) (replicate (2 * h + 1) Singular)
           = Inr (2 * h + 1, xs, map At (slots src h 0), h + 1)"
    unfolding xs_def using h mem by (rule window_setup_result)
  have "set_begin xs = At (xs ! 0)" by (simp add: cons set_begin_def)
  moreover have "advance xs (At (xs ! 0)) k = Inr (At (xs ! (0 + k)))"
    using xs k(2) by (intro advance_nth) simp_all
  ultimately have 3: "advance xs (set_begin xs) k = Inr (At (xs ! k))" by simp
  have 4: "deref xs (At (xs ! k)) = Inr (xs ! k)"
    using xs k(2) by (simp add: deref_mem)
  have "0 < length dest0" using h d by (cases dest0) auto
  then have 5: "array_write dest0 0 (fst (xs ! k)) = Inr (dest0[0 := fst (xs ! k)])"
    by (simp add: array_write_def)
  have "dest0[0 := fst (xs ! k)] = map (output_at src h k) [0..<0 + 1] @ drop (0 + 1) dest0"
    using \<open>0 < length dest0\<close> by (cases dest0) (simp_all add: output_at_def xs_def)
  moreover have "2 * h - 2 * (0 + h + 1 - length src) = 2 * h" using h by simp
  moreover have "(h + 1 \<noteq> length src) = (0 + h + 1 < length src)" using h by auto
  moreover have "min (0 + h + 1) (length src) = h + 1" using h by simp
  ultimately have fin: "\<lparr>values_seen = 2 * h + 1, sorted_window = xs, window_iters = map At (slots src h 0),
            rank_point = At (xs ! k), rank_value = fst (xs ! k),
            window_reflect_pos = 2 * h, src_pos = h + 1,
            src_not_empty = (h + 1 \<noteq> length src), dest = dest0[0 := fst (xs ! k)], dest_pos = 0\<rparr>
        = state_at src dest0 h k 0"
    by (simp add: state_at_def xs_def output_at_def)
  show ?thesis
    unfolding initial_state_def
    by (simp only: 1 2 3 4 5 k(1) fin bindE_Inr prod.case Let_def)
qed

lemma roll_cond_state_at:
  assumes "h + 1 \<le> length src" "p < length src"
  shows "roll_cond (state_at src dest0 h k p) \<longleftrightarrow> Suc p < length src"
  using assms by (auto simp: roll_cond_def state_at_def)

lemma roll_steps_state_at:
  fixes src :: "'a::linorder list"
  assumes h: "h + 1 \<le> length src" and k: "k \<le> 2 * h" and d: "length src \<le> length dest0"
    and mem: "length src < 2 ^ 63" "2 * h + 1 \<le> deque_max_size"
    and p: "p < length src"
  shows "roll_steps src p (state_at src dest0 h k 0) = Inr (state_at src dest0 h k p)"
  using p
proof (induction p)
  case 0
  then show ?case by simp
next
  case (Suc p)
  then have "roll_steps src p (state_at src dest0 h k 0) = Inr (state_at src dest0 h k p)"
    by simp
  moreover have "roll_step src (state_at src dest0 h k p) = Inr (state_at src dest0 h k (Suc p))"
    using h k d mem Suc.prems by (rule roll_step_state_at)
  ultimately show ?case by simp
qed

lemma roll_loop_state_at:
  fixes src :: "'a::linorder list"
  assumes h: "h + 1 \<le> length src" and k: "k \<le> 2 * h" and d: "length src \<le> length dest0"
    and mem: "length src < 2 ^ 63" "2 * h + 1 \<le> deque_max_size"
    and p: "p < length src"
  shows "roll_loop src (state_at src dest0 h k p) = Inr (state_at src dest0 h k (length src - 1))"
  using p
proof (induction "length src - 1 - p" arbitrary: p)
  case 0
  then have "p = length src - 1" by simp
  moreover have "\<not> roll_cond (state_at src dest0 h k p)"
    using 0 h by (simp add: roll_cond_state_at)
  ultimately show ?case by (subst roll_loop.simps) simp
next
  case (Suc n)
  then have lt: "Suc p < length src" by simp
  then have "roll_cond (state_at src dest0 h k p)"
    using h by (simp add: roll_cond_state_at)
  moreover have "roll_step src (state_at src dest0 h k p) = Inr (state_at src dest0 h k (Suc p))"
    using h k d mem lt by (rule roll_step_state_at)
  moreover have "roll_loop src (state_at src dest0 h k (Suc p))
      = Inr (state_at src dest0 h k (length src - 1))"
    using Suc.hyps(2) lt by (intro Suc.hyps(1)) simp_all
  ultimately show ?case by (subst roll_loop.simps) simp
qed

section \<open>The result of a run\<close>

lemma window_lengths:
  fixes half_length :: "64 word"
  assumes "unat half_length + 1 \<le> n" "n < 2 ^ 63"
  shows "unat (half_length + 1) = unat half_length + 1"
    and "unat (2 * half_length) = 2 * unat half_length"
    and "unat (2 * half_length + 1) = 2 * unat half_length + 1"
proof -
  have h: "unat half_length < 2 ^ 63 - 1" using assms by simp
  show 1: "unat (half_length + 1) = unat half_length + 1"
    using h by (simp add: unat_word_ariths)
  show 2: "unat (2 * half_length) = 2 * unat half_length"
    using h by (simp add: unat_word_ariths)
  show "unat (2 * half_length + 1) = 2 * unat half_length + 1"
    using h 2 by (simp add: unat_word_ariths)
qed

lemma map_fst_sort:
  fixes ps :: "('a::linorder \<times> 'b::linorder) list"
  shows "map fst (sort ps) = sort (map fst ps)"
proof (rule sorted_mset_unique)
  have "sorted_wrt (\<lambda>x y. fst x \<le> fst y) (sort ps)"
    by (rule sorted_wrt_mono_rel [of _ "(\<le>)"]) (auto simp: less_eq_prod_def)
  then show "sorted (map fst (sort ps))" by (simp add: sorted_map)
  show "sorted (sort (map fst ps))" by simp
  show "mset (map fst (sort ps)) = mset (sort (map fst ps))" by simp
qed

lemma map_fst_slots: "map fst (slots src h p) = window_at src h p"
proof -
  have "[p..<p + 2 * h + 1] = map (\<lambda>i. i + p) [0..<2 * h + 1]"
    by (simp only: map_add_upt) (simp add: ac_simps)
  then have "map fst (slots src h p) = map (\<lambda>i. slot_value src h (i + p)) [0..<2 * h + 1]"
    by (simp only: slots_def map_map o_def fst_slot)
  also have "\<dots> = window_at src h p"
    unfolding window_at_def slot_value_def by (rule map_cong) (simp_all add: ac_simps)
  finally show ?thesis .
qed

lemma output_at_sort:
  fixes src :: "'a::linorder list"
  assumes "k \<le> 2 * h"
  shows "output_at src h k p = sort (window_at src h p) ! k"
proof -
  have "k < length (sort (slots src h p))" using assms by simp
  then have "fst (sort (slots src h p) ! k) = map fst (sort (slots src h p)) ! k"
    by (simp only: nth_map)
  then show ?thesis by (simp add: output_at_def map_fst_sort map_fst_slots)
qed

lemma outputs_spec:
  fixes src :: "'a::linorder list"
  assumes "0 \<le> rank" "rank \<le> 1" "2 * h < 2 ^ 53"
  shows "map (output_at src h (rank_pos_of rank (2 * h))) [0..<length src] = rank_filter_spec src h rank"
  unfolding rank_filter_spec_def
  using rank_pos_of_le [OF assms] by (intro map_cong refl output_at_sort)

lemma filter_unfold:
  fixes src :: "'a::{linorder,zero} list"
  assumes v: "valid_input src dest0 half_length rank" and m: "in_memory src half_length"
  defines "h \<equiv> unat half_length" and "k \<equiv> rank_pos_of rank (2 * unat half_length)"
  shows "initial_state src dest0 (unat half_length) (unat (half_length + 1))
           (unat (2 * half_length)) (unat (2 * half_length + 1)) rank = Inr (state_at src dest0 h k 0)"
    and "lineRankOrderFilter1D src dest0 half_length rank =
           bindE (roll_loop src (state_at src dest0 h k 0)) (\<lambda>s. Inr (dest s))"
proof -
  have len: "unat (half_length + 1) = h + 1" "unat (2 * half_length) = 2 * h"
    "unat (2 * half_length + 1) = 2 * h + 1"
    using v m window_lengths [of half_length "length src"]
    by (simp_all add: valid_input_def in_memory_def h_def)
  have k: "k \<le> 2 * h" using rank_pos_in_window [OF v m] by (simp add: k_def h_def)
  show init: "initial_state src dest0 (unat half_length) (unat (half_length + 1))
           (unat (2 * half_length)) (unat (2 * half_length + 1)) rank = Inr (state_at src dest0 h k 0)"
    unfolding len h_def [symmetric]
    using v m k by (intro initial_state_result) (simp_all add: valid_input_def in_memory_def h_def k_def)
  show "lineRankOrderFilter1D src dest0 half_length rank =
           bindE (roll_loop src (state_at src dest0 h k 0)) (\<lambda>s. Inr (dest s))"
    using v init len by (simp add: lineRankOrderFilter1D_def Let_def valid_input_def h_def)
qed

lemma filter_result:
  fixes src :: "'a::{linorder,zero} list"
  assumes v: "valid_input src dest0 half_length rank" and m: "in_memory src half_length"
  shows "lineRankOrderFilter1D src dest0 half_length rank =
           Inr (rank_filter_spec src (unat half_length) rank @ drop (length src) dest0)"
proof -
  define h where "h = unat half_length"
  define k where "k = rank_pos_of rank (2 * h)"
  have k: "k \<le> 2 * h" using rank_pos_in_window [OF v m] by (simp add: k_def h_def)
  have n: "h + 1 \<le> length src" using v by (simp add: valid_input_def h_def)
  then have n1: "length src - 1 + 1 = length src" "length src - 1 < length src" by arith+
  have "roll_loop src (state_at src dest0 h k 0) = Inr (state_at src dest0 h k (length src - 1))"
  proof (rule roll_loop_state_at)
    show "h + 1 \<le> length src" by (rule n)
    show "k \<le> 2 * h" by (rule k)
    show "length src \<le> length dest0" using v by (simp add: valid_input_def)
    show "length src < 2 ^ 63" using m by (simp add: in_memory_def)
    show "2 * h + 1 \<le> deque_max_size" using m by (simp add: in_memory_def h_def)
    show "0 < length src" using n by arith
  qed
  moreover have "dest (state_at src dest0 h k (length src - 1))
      = map (output_at src h k) [0..<length src] @ drop (length src) dest0"
    by (simp only: state_at_def roll_state.simps n1)
  moreover have "map (output_at src h k) [0..<length src] = rank_filter_spec src h rank"
    unfolding k_def using v m by (intro outputs_spec) (simp_all add: valid_input_def in_memory_def h_def)
  ultimately show ?thesis
    using filter_unfold(2) [OF v m] by (simp add: h_def k_def)
qed

section \<open>The four branches of the update\<close>

text \<open>
  C4. For values of a totally ordered type, exactly one of the four branch conditions
  of the roll-forward step holds, whatever the cursor's value, the outgoing value and
  the incoming value are; so the chain of \<^verbatim>\<open>if\<close> / \<^verbatim>\<open>else if\<close> never falls through
  its last test.
\<close>

theorem branch_conditions_partition:
  fixes rv pv nv :: "'a::linorder"
  shows "length (filter (\<lambda>c. c) (branch_conditions rv pv nv)) = 1 \<and>
         branch_taken rv pv nv \<noteq> FallThrough"
  by (auto simp: branch_conditions_def branch_taken_def)

section \<open>The outputs are order statistics of the reflected windows\<close>

lemma length_window_at: "length (window_at src h p) = 2 * h + 1"
  by (simp add: window_at_def)

lemma state_after:
  fixes src :: "'a::{linorder,zero} list"
  assumes v: "valid_input src dest0 half_length rank" and m: "in_memory src half_length"
    and p: "p < length src"
  shows "bindE (initial_state src dest0 (unat half_length) (unat (half_length + 1))
                  (unat (2 * half_length)) (unat (2 * half_length + 1)) rank) (roll_steps src p)
         = Inr (state_at src dest0 (unat half_length) (rank_pos_of rank (2 * unat half_length)) p)"
proof -
  have "roll_steps src p (state_at src dest0 (unat half_length) (rank_pos_of rank (2 * unat half_length)) 0)
      = Inr (state_at src dest0 (unat half_length) (rank_pos_of rank (2 * unat half_length)) p)"
  proof (rule roll_steps_state_at)
    show "unat half_length + 1 \<le> length src" using v by (simp add: valid_input_def)
    show "rank_pos_of rank (2 * unat half_length) \<le> 2 * unat half_length"
      using v m by (rule rank_pos_in_window)
    show "length src \<le> length dest0" using v by (simp add: valid_input_def)
    show "length src < 2 ^ 63" using m by (simp add: in_memory_def)
    show "2 * unat half_length + 1 \<le> deque_max_size" using m by (simp add: in_memory_def)
    show "p < length src" by (rule p)
  qed
  then show ?thesis by (simp only: filter_unfold(1) [OF v m] bindE_Inr)
qed

text \<open>
  C1. On every input that passes the three checks, the value stored at output position
  \<open>p\<close> is the element at index \<open>rank_pos\<close> of the sorted window of
  \<open>2 * half_length + 1\<close> values around \<open>p\<close> in the sequence reflected at both ends,
  where \<open>rank_pos\<close> is the position of line 98: the product of \<^verbatim>\<open>rank\<close> and
  \<open>2 * half_length\<close> rounded to a \<^verbatim>\<open>double\<close> and then to an integer.
\<close>

theorem rank_filter_order_statistic:
  fixes src :: "'a::{linorder,zero} list"
  assumes "valid_input src dest0 half_length rank" and "in_memory src half_length"
    and "p < length src"
  shows "\<exists>out. lineRankOrderFilter1D src dest0 half_length rank = Inr out \<and>
           length (window_at src (unat half_length) p) = 2 * unat half_length + 1 \<and>
           out ! p = sort (window_at src (unat half_length) p) ! rank_pos_of rank (2 * unat half_length) \<and>
           rank_pos_of rank (2 * unat half_length)
             = nat (boost_round (round_double (rank * of_nat (2 * unat half_length))))"
proof -
  have "(rank_filter_spec src (unat half_length) rank @ drop (length src) dest0) ! p
          = rank_filter_spec src (unat half_length) rank ! p"
    using assms(3) by (simp add: nth_append rank_filter_spec_def)
  also have "\<dots> = sort (window_at src (unat half_length) p) ! rank_pos_of rank (2 * unat half_length)"
    using assms(3) by (simp add: rank_filter_spec_def del: upt_Suc)
  finally show ?thesis
    using filter_result [OF assms(1,2)] rank_pos_of_product [OF assms(1,2)]
    by (simp add: length_window_at)
qed

theorem rank_filter_order_statistic_witness:
  "valid_input [3, - 1, 0, - 3, 2, - 4, 1, 5, - 2, 4, 6 :: int] [0, 0, 0, 0, 0, 0, 0, 0, 0, 0, 0] 5 (5404319552844595 / 2 ^ 55) \<and>
   valid_input [3, - 1, 0, - 3, 2, - 4, 1, 5, - 2, 4, 6 :: int] [0, 0, 0, 0, 0, 0, 0, 0, 0, 0, 0] 5 (1 / 8) \<and>
   in_memory [3, - 1, 0, - 3, 2, - 4, 1, 5, - 2, 4, 6 :: int] 5 \<and>
   (0::nat) < length [3, - 1, 0, - 3, 2, - 4, 1, 5, - 2, 4, 6 :: int] \<and>
   (\<exists>out. lineRankOrderFilter1D [3, - 1, 0, - 3, 2, - 4, 1, 5, - 2, 4, 6 :: int] [0, 0, 0, 0, 0, 0, 0, 0, 0, 0, 0] 5 (5404319552844595 / 2 ^ 55) = Inr out \<and>
          out ! 0 = - 3 \<and> rank_pos_of (5404319552844595 / 2 ^ 55) (2 * unat (5 :: 64 word)) = 2) \<and>
   (\<exists>out. lineRankOrderFilter1D [3, - 1, 0, - 3, 2, - 4, 1, 5, - 2, 4, 6 :: int] [0, 0, 0, 0, 0, 0, 0, 0, 0, 0, 0] 5 (1 / 8) = Inr out \<and>
          out ! 0 = - 4 \<and> rank_pos_of (1 / 8) (2 * unat (5 :: 64 word)) = 1)"
proof -
  have v: "valid_input [3, - 1, 0, - 3, 2, - 4, 1, 5, - 2, 4, 6 :: int] [0, 0, 0, 0, 0, 0, 0, 0, 0, 0, 0] 5 (5404319552844595 / 2 ^ 55)"
    by (simp add: valid_input_def)
  have v': "valid_input [3, - 1, 0, - 3, 2, - 4, 1, 5, - 2, 4, 6 :: int] [0, 0, 0, 0, 0, 0, 0, 0, 0, 0, 0] 5 (1 / 8)"
    by (simp add: valid_input_def)
  have m: "in_memory [3, - 1, 0, - 3, 2, - 4, 1, 5, - 2, 4, 6 :: int] 5"
    by (simp add: in_memory_def deque_max_size_def)
  have p: "(0::nat) < length [3, - 1, 0, - 3, 2, - 4, 1, 5, - 2, 4, 6 :: int]" by simp
  have k: "rank_pos_of (5404319552844595 / 2 ^ 55) (2 * unat (5 :: 64 word)) = 2"
    using rank_pos_of_15_100 by simp
  have k': "rank_pos_of (1 / 8) (2 * unat (5 :: 64 word)) = 1"
    using rank_pos_of_1_8 by simp
  have w: "sort (window_at [3, - 1, 0, - 3, 2, - 4, 1, 5, - 2, 4, 6 :: int] (unat (5 :: 64 word)) 0)
             = [- 4, - 4, - 3, - 3, - 1, - 1, 0, 0, 2, 2, 3]"
    by (simp add: window_at_def reflect_def upt_rec)
  have 1: "\<exists>out. lineRankOrderFilter1D [3, - 1, 0, - 3, 2, - 4, 1, 5, - 2, 4, 6 :: int] [0, 0, 0, 0, 0, 0, 0, 0, 0, 0, 0] 5 (5404319552844595 / 2 ^ 55) = Inr out \<and>
          out ! 0 = - 3 \<and> rank_pos_of (5404319552844595 / 2 ^ 55) (2 * unat (5 :: 64 word)) = 2"
    using rank_filter_order_statistic [OF v m p] unfolding k w by auto
  have 2: "\<exists>out. lineRankOrderFilter1D [3, - 1, 0, - 3, 2, - 4, 1, 5, - 2, 4, 6 :: int] [0, 0, 0, 0, 0, 0, 0, 0, 0, 0, 0] 5 (1 / 8) = Inr out \<and>
          out ! 0 = - 4 \<and> rank_pos_of (1 / 8) (2 * unat (5 :: 64 word)) = 1"
    using rank_filter_order_statistic [OF v' m p] unfolding k' w by auto
  from v v' m p 1 2 show ?thesis by (intro conjI)
qed

section \<open>The states of a run\<close>

lemma state_after_passes_eq:
  fixes src :: "'a::{linorder,zero} list"
  assumes "valid_input src dest0 half_length rank" and "in_memory src half_length"
    and "p < length src"
  shows "state_after_passes src dest0 half_length rank p
         = Inr (state_at src dest0 (unat half_length) (rank_pos_of rank (2 * unat half_length)) p)"
  unfolding state_after_passes_def using assms by (rule state_after)

lemma valid_facts:
  assumes "valid_input src dest0 half_length rank" and "in_memory src half_length"
  shows "unat half_length + 1 \<le> length src" "length src \<le> length dest0"
    "0 < length src" "length src - 1 < length src"
    "rank_pos_of rank (2 * unat half_length) \<le> 2 * unat half_length"
  using assms(1) rank_pos_in_window [OF assms] by (auto simp: valid_input_def)

lemma roll_loop_after:
  fixes src :: "'a::{linorder,zero} list"
  assumes v: "valid_input src dest0 half_length rank" and m: "in_memory src half_length"
  shows "roll_loop src (state_at src dest0 (unat half_length) (rank_pos_of rank (2 * unat half_length)) 0)
       = Inr (state_at src dest0 (unat half_length) (rank_pos_of rank (2 * unat half_length)) (length src - 1))"
proof (rule roll_loop_state_at)
  show "unat half_length + 1 \<le> length src" by (rule valid_facts [OF v m])
  show "rank_pos_of rank (2 * unat half_length) \<le> 2 * unat half_length" by (rule valid_facts [OF v m])
  show "length src \<le> length dest0" by (rule valid_facts [OF v m])
  show "length src < 2 ^ 63" using m by (simp add: in_memory_def)
  show "2 * unat half_length + 1 \<le> deque_max_size" using m by (simp add: in_memory_def)
  show "0 < length src" by (rule valid_facts [OF v m])
qed

text \<open>The function in terms of the states of its run.\<close>

lemma filter_passes:
  fixes src :: "'a::{linorder,zero} list"
  shows "lineRankOrderFilter1D src dest0 half_length rank =
     (if \<not> length src \<le> length dest0 then Inl DestinationTooSmall
      else if \<not> unat (half_length + 1) \<le> length src then Inl WindowTooLarge
      else if \<not> (0 \<le> rank \<and> rank \<le> 1) then Inl RankOutOfRange
      else bindE (state_after_passes src dest0 half_length rank 0) (\<lambda>s.
           bindE (roll_loop src s) (\<lambda>s. Inr (dest s))))"
proof -
  have "roll_steps src 0 = Inr" by (rule ext) simp
  moreover have "bindE m Inr = m" for m :: "error + 'a roll_state"
    by (cases m) simp_all
  ultimately show ?thesis
    by (simp add: lineRankOrderFilter1D_def state_after_passes_def Let_def)
qed

section \<open>The destination\<close>

text \<open>
  C2. On every input that passes the checks the function stores \<open>|source|\<close> values:
  one at position \<open>0\<close> before the loop, and one per pass of the loop, the \<open>j + 1\<close>-st
  pass storing at position \<open>j + 1\<close>. The loop makes \<open>|source| - 1\<close> passes, and the
  destination beyond position \<open>|source| - 1\<close> is left as it was.
\<close>

theorem writes_source_length_values:
  fixes src :: "'a::{linorder,zero} list"
  assumes v: "valid_input src dest0 half_length rank" and m: "in_memory src half_length"
  shows "\<exists>s0 sN.
           state_after_passes src dest0 half_length rank 0 = Inr s0 \<and>
           dest_pos s0 = 0 \<and> dest s0 = dest0[0 := rank_value s0] \<and>
           (\<forall>j<length src - 1. \<exists>s s'.
              state_after_passes src dest0 half_length rank j = Inr s \<and> roll_cond s \<and>
              roll_step src s = Inr s' \<and>
              state_after_passes src dest0 half_length rank (Suc j) = Inr s' \<and>
              dest_pos s' = Suc j \<and> dest s' = (dest s)[Suc j := rank_value s']) \<and>
           state_after_passes src dest0 half_length rank (length src - 1) = Inr sN \<and>
           \<not> roll_cond sN \<and> roll_loop src s0 = Inr sN \<and> dest_pos sN = length src - 1 \<and>
           lineRankOrderFilter1D src dest0 half_length rank = Inr (dest sN) \<and>
           length (dest sN) = length dest0 \<and>
           drop (length src) (dest sN) = drop (length src) dest0"
proof -
  define h where "h = unat half_length"
  define k where "k = rank_pos_of rank (2 * unat half_length)"
  define st where "st = state_at src dest0 h k"
  note vf = valid_facts [OF v m, folded h_def k_def]
  have after: "\<And>p. p < length src \<Longrightarrow> state_after_passes src dest0 half_length rank p = Inr (st p)"
    unfolding st_def h_def k_def using v m by (rule state_after_passes_eq)
  have n1: "length src - 1 + 1 = length src" using vf(3) by arith
  have d0: "0 < length dest0" using vf(2,3) by arith
  have 1: "dest_pos (st 0) = 0" by (simp add: st_def state_at_def)
  have 2: "dest (st 0) = dest0[0 := rank_value (st 0)]"
    using d0 by (cases dest0) (simp_all add: st_def state_at_def)
  have 3: "\<exists>s s'. state_after_passes src dest0 half_length rank j = Inr s \<and> roll_cond s \<and>
              roll_step src s = Inr s' \<and>
              state_after_passes src dest0 half_length rank (Suc j) = Inr s' \<and>
              dest_pos s' = Suc j \<and> dest s' = (dest s)[Suc j := rank_value s']"
    if j: "j < length src - 1" for j
  proof -
    from j have lt: "Suc j < length src" "j < length src" by arith+
    have "roll_cond (st j)"
      unfolding st_def using vf(1) lt by (simp add: roll_cond_state_at)
    moreover have "roll_step src (st j) = Inr (st (Suc j))"
      unfolding st_def using vf(1,5,2) m lt(1)
      by (intro roll_step_state_at) (simp_all add: in_memory_def h_def)
    moreover have "dest_pos (st (Suc j)) = Suc j" by (simp add: st_def state_at_def)
    moreover have "dest (st (Suc j)) = (dest (st j))[Suc j := rank_value (st (Suc j))]"
      using dest_write_next [of j dest0 "output_at src h k"] lt vf(2)
      by (simp add: st_def state_at_def del: upt_Suc)
    ultimately show ?thesis using after [OF lt(1)] after [OF lt(2)] by blast
  qed
  have 4: "\<not> roll_cond (st (length src - 1))"
    unfolding st_def using vf(1,4) by (simp add: roll_cond_state_at)
  have 5: "roll_loop src (st 0) = Inr (st (length src - 1))"
    unfolding st_def h_def k_def using v m by (rule roll_loop_after)
  have 6: "dest_pos (st (length src - 1)) = length src - 1" by (simp add: st_def state_at_def)
  have 7: "lineRankOrderFilter1D src dest0 half_length rank = Inr (dest (st (length src - 1)))"
    using filter_unfold(2) [OF v m] 5 by (simp add: st_def h_def k_def)
  have dN: "dest (st (length src - 1)) = map (output_at src h k) [0..<length src] @ drop (length src) dest0"
    by (simp only: st_def state_at_def roll_state.simps n1)
  have 8: "length (dest (st (length src - 1))) = length dest0"
    unfolding dN using vf(2) by simp
  have 9: "drop (length src) (dest (st (length src - 1))) = drop (length src) dest0"
    unfolding dN by simp
  show ?thesis
    using after [OF vf(3)] after [OF vf(4)] 1 2 3 4 5 6 7 8 9 by blast
qed

theorem writes_source_length_values_witness:
  "valid_input [5, 3, 8, 1, 9, 2, 7 :: int] [0, 0, 0, 0, 0, 0, 0, 9, 9] 1 (1 / 2) \<and>
   in_memory [5, 3, 8, 1, 9, 2, 7 :: int] 1 \<and>
   (\<exists>out. lineRankOrderFilter1D [5, 3, 8, 1, 9, 2, 7 :: int] [0, 0, 0, 0, 0, 0, 0, 9, 9] 1 (1 / 2) = Inr out \<and>
          length out = length [0, 0, 0, 0, 0, 0, 0, 9, 9 :: int] \<and>
          drop (length [5, 3, 8, 1, 9, 2, 7 :: int]) out = [9, 9])"
proof -
  have v: "valid_input [5, 3, 8, 1, 9, 2, 7 :: int] [0, 0, 0, 0, 0, 0, 0, 9, 9] 1 (1 / 2)"
    by (simp add: valid_input_def)
  have m: "in_memory [5, 3, 8, 1, 9, 2, 7 :: int] 1"
    by (simp add: in_memory_def deque_max_size_def)
  from writes_source_length_values [OF v m] have
    "\<exists>sN :: int roll_state.
       lineRankOrderFilter1D [5, 3, 8, 1, 9, 2, 7 :: int] [0, 0, 0, 0, 0, 0, 0, 9, 9] 1 (1 / 2) = Inr (dest sN) \<and>
       length (dest sN) = length [0, 0, 0, 0, 0, 0, 0, 9, 9 :: int] \<and>
       drop (length [5, 3, 8, 1, 9, 2, 7 :: int]) (dest sN)
         = drop (length [5, 3, 8, 1, 9, 2, 7 :: int]) [0, 0, 0, 0, 0, 0, 0, 9, 9]"
    by (elim exE conjE) (intro exI conjI, assumption+)
  then show ?thesis using v m by auto
qed

section \<open>The rank cursor\<close>

text \<open>
  C3. After the initialisation and after every pass of the loop, the cursor points to
  an element of the ordered window that has exactly \<open>rank_pos\<close> elements strictly
  below it in the order on (value, sequence index) pairs, that is, to the element at
  index \<open>rank_pos\<close> of the ordered window; \<^verbatim>\<open>rank_value\<close> is its value.
\<close>

theorem rank_cursor_invariant:
  fixes src :: "'a::{linorder,zero} list"
  assumes "valid_input src dest0 half_length rank" and "in_memory src half_length"
    and "p < length src"
  shows "\<exists>s r. state_after_passes src dest0 half_length rank p = Inr s \<and>
           rank_point s = At r \<and> r \<in> set (sorted_window s) \<and>
           sorted (sorted_window s) \<and> distinct (sorted_window s) \<and>
           ordinal (sorted_window s) r = rank_pos_of rank (2 * unat half_length) \<and>
           sorted_window s ! rank_pos_of rank (2 * unat half_length) = r \<and>
           rank_value s = fst r"
proof -
  define h where "h = unat half_length"
  define k where "k = rank_pos_of rank (2 * unat half_length)"
  define xs where "xs = sort (slots src h p)"
  define s where "s = state_at src dest0 h k p"
  have k: "k \<le> 2 * h" using valid_facts(5) [OF assms(1,2)] by (simp add: k_def h_def)
  have xs: "sorted xs" "distinct xs" "k < length xs"
    using k by (simp_all add: xs_def distinct_slots)
  have 1: "state_after_passes src dest0 half_length rank p = Inr s"
    unfolding s_def h_def k_def using assms by (rule state_after_passes_eq)
  have 2: "rank_point s = At (xs ! k)" and 3: "sorted_window s = xs"
    and 4: "rank_value s = fst (xs ! k)"
    by (simp_all add: s_def state_at_def xs_def output_at_def)
  have 5: "xs ! k \<in> set xs" using xs by simp
  have 6: "ordinal xs (xs ! k) = k" using xs by (rule ordinal_nth)
  have "state_after_passes src dest0 half_length rank p = Inr s \<and>
           rank_point s = At (xs ! k) \<and> xs ! k \<in> set (sorted_window s) \<and>
           sorted (sorted_window s) \<and> distinct (sorted_window s) \<and>
           ordinal (sorted_window s) (xs ! k) = k \<and>
           sorted_window s ! k = xs ! k \<and>
           rank_value s = fst (xs ! k)"
    using 1 2 4 5 6 xs by (simp add: 3)
  then show ?thesis unfolding k_def by (intro exI)
qed

theorem rank_cursor_invariant_witness:
  "valid_input [3, - 1, 0, - 3, 2, - 4, 1, 5, - 2, 4, 6 :: int] [0, 0, 0, 0, 0, 0, 0, 0, 0, 0, 0] 5 (5404319552844595 / 2 ^ 55) \<and>
   valid_input [3, - 1, 0, - 3, 2, - 4, 1, 5, - 2, 4, 6 :: int] [0, 0, 0, 0, 0, 0, 0, 0, 0, 0, 0] 5 (1 / 8) \<and>
   in_memory [3, - 1, 0, - 3, 2, - 4, 1, 5, - 2, 4, 6 :: int] 5 \<and>
   (7::nat) < length [3, - 1, 0, - 3, 2, - 4, 1, 5, - 2, 4, 6 :: int] \<and>
   (\<exists>s r. state_after_passes [3, - 1, 0, - 3, 2, - 4, 1, 5, - 2, 4, 6 :: int] [0, 0, 0, 0, 0, 0, 0, 0, 0, 0, 0] 5 (5404319552844595 / 2 ^ 55) 7 = Inr s \<and>
          rank_point s = At r \<and> r \<in> set (sorted_window s) \<and>
          ordinal (sorted_window s) r = 2 \<and> rank_value s = fst r) \<and>
   (\<exists>s r. state_after_passes [3, - 1, 0, - 3, 2, - 4, 1, 5, - 2, 4, 6 :: int] [0, 0, 0, 0, 0, 0, 0, 0, 0, 0, 0] 5 (1 / 8) 7 = Inr s \<and>
          rank_point s = At r \<and> r \<in> set (sorted_window s) \<and>
          ordinal (sorted_window s) r = 1 \<and> rank_value s = fst r)"
proof -
  have v: "valid_input [3, - 1, 0, - 3, 2, - 4, 1, 5, - 2, 4, 6 :: int] [0, 0, 0, 0, 0, 0, 0, 0, 0, 0, 0] 5 (5404319552844595 / 2 ^ 55)"
    by (simp add: valid_input_def)
  have v': "valid_input [3, - 1, 0, - 3, 2, - 4, 1, 5, - 2, 4, 6 :: int] [0, 0, 0, 0, 0, 0, 0, 0, 0, 0, 0] 5 (1 / 8)"
    by (simp add: valid_input_def)
  have m: "in_memory [3, - 1, 0, - 3, 2, - 4, 1, 5, - 2, 4, 6 :: int] 5"
    by (simp add: in_memory_def deque_max_size_def)
  have p: "(7::nat) < length [3, - 1, 0, - 3, 2, - 4, 1, 5, - 2, 4, 6 :: int]" by simp
  have k: "rank_pos_of (5404319552844595 / 2 ^ 55) (2 * unat (5 :: 64 word)) = 2"
    using rank_pos_of_15_100 by simp
  have k': "rank_pos_of (1 / 8) (2 * unat (5 :: 64 word)) = 1"
    using rank_pos_of_1_8 by simp
  have 1: "\<exists>s r. state_after_passes [3, - 1, 0, - 3, 2, - 4, 1, 5, - 2, 4, 6 :: int] [0, 0, 0, 0, 0, 0, 0, 0, 0, 0, 0] 5 (5404319552844595 / 2 ^ 55) 7 = Inr s \<and>
          rank_point s = At r \<and> r \<in> set (sorted_window s) \<and>
          ordinal (sorted_window s) r = 2 \<and> rank_value s = fst r"
    using rank_cursor_invariant [OF v m p] unfolding k by blast
  have 2: "\<exists>s r. state_after_passes [3, - 1, 0, - 3, 2, - 4, 1, 5, - 2, 4, 6 :: int] [0, 0, 0, 0, 0, 0, 0, 0, 0, 0, 0] 5 (1 / 8) 7 = Inr s \<and>
          rank_point s = At r \<and> r \<in> set (sorted_window s) \<and>
          ordinal (sorted_window s) r = 1 \<and> rank_value s = fst r"
    using rank_cursor_invariant [OF v' m p] unfolding k' by blast
  from v v' m p 1 2 show ?thesis by (intro conjI)
qed

section \<open>The contents of the initial window\<close>

lemma slots_initial:
  assumes "h + 1 \<le> length src"
  shows "slots src h 0 = zip (rev (take h (drop 1 src)) @ take (h + 1) src) [0..<2 * h + 1]"
proof (rule nth_equalityI)
  show len: "length (slots src h 0) = length (zip (rev (take h (drop 1 src)) @ take (h + 1) src) [0..<2 * h + 1])"
    using assms by simp
  fix i assume "i < length (slots src h 0)"
  then have i: "i < 2 * h + 1" by simp
  have idx: "slot_index h i = i" using i by (simp add: slot_index_def)
  have val: "slot_value src h i = (rev (take h (drop 1 src)) @ take (h + 1) src) ! i"
  proof (cases "i < h")
    case True
    then have "(rev (take h (drop 1 src)) @ take (h + 1) src) ! i = rev (take h (drop 1 src)) ! i"
      using assms by (simp add: nth_append)
    also have "\<dots> = take h (drop 1 src) ! (h - Suc i)"
      using True assms by (simp add: rev_nth)
    also have "\<dots> = src ! (h - i)"
      using True assms by (simp add: Suc_diff_Suc)
    finally show ?thesis using True by (simp add: slot_value_left)
  next
    case False
    then have "(rev (take h (drop 1 src)) @ take (h + 1) src) ! i = take (h + 1) src ! (i - h)"
      using assms by (simp add: nth_append)
    also have "\<dots> = src ! (i - h)"
      using False i by simp
    finally show ?thesis using False i assms by (simp add: slot_value_plain)
  qed
  have "slots src h 0 ! i = (slot_value src h i, slot_index h i)"
    using i by (simp add: slots_def slot_def del: upt_Suc)
  moreover have "zip (rev (take h (drop 1 src)) @ take (h + 1) src) [0..<2 * h + 1] ! i
      = ((rev (take h (drop 1 src)) @ take (h + 1) src) ! i, i)"
    using i assms by (simp del: upt_Suc)
  ultimately show "slots src h 0 ! i = zip (rev (take h (drop 1 src)) @ take (h + 1) src) [0..<2 * h + 1] ! i"
    using idx val by simp
qed

text \<open>
  C5. The window built by the initialisation holds, in the order of insertion, the
  source elements at positions \<open>half_length\<close> down to \<open>1\<close> and then those at positions
  \<open>0\<close> up to \<open>half_length\<close>, numbered \<open>0, 1, \<dots>, 2 * half_length\<close>; the first
  value stored is the one at index \<open>rank_pos\<close> of that window sorted.
\<close>

theorem initial_window_contents:
  fixes src :: "'a::{linorder,zero} list"
  assumes v: "valid_input src dest0 half_length rank" and m: "in_memory src half_length"
  shows "\<exists>s0 w.
           w = rev (take (unat half_length) (drop 1 src)) @ take (unat half_length + 1) src \<and>
           state_after_passes src dest0 half_length rank 0 = Inr s0 \<and>
           window_iters s0 = map At (zip w [0..<2 * unat half_length + 1]) \<and>
           sorted_window s0 = sort (zip w [0..<2 * unat half_length + 1]) \<and>
           rank_point s0 = At (sorted_window s0 ! rank_pos_of rank (2 * unat half_length)) \<and>
           dest s0 ! 0 = sort w ! rank_pos_of rank (2 * unat half_length)"
proof -
  define h where "h = unat half_length"
  define k where "k = rank_pos_of rank (2 * unat half_length)"
  define w where "w = rev (take h (drop 1 src)) @ take (h + 1) src"
  define s0 where "s0 = state_at src dest0 h k 0"
  note vf = valid_facts [OF v m, folded h_def k_def]
  have sl: "slots src h 0 = zip w [0..<2 * h + 1]"
    unfolding w_def using vf(1) by (rule slots_initial)
  have lw: "length w = 2 * h + 1" using vf(1) by (simp add: w_def)
  have "map fst (zip w [0..<2 * h + 1]) = w" using lw by (simp only: map_fst_zip length_upt diff_zero)
  then have w_at: "window_at src h 0 = w" by (simp add: sl flip: map_fst_slots)
  have 1: "state_after_passes src dest0 half_length rank 0 = Inr s0"
    unfolding s0_def h_def k_def using v m vf(3) by (rule state_after_passes_eq)
  have 2: "window_iters s0 = map At (zip w [0..<2 * h + 1])"
    and 3: "sorted_window s0 = sort (zip w [0..<2 * h + 1])"
    by (simp_all add: s0_def state_at_def sl)
  have 4: "rank_point s0 = At (sorted_window s0 ! k)"
    by (simp add: s0_def state_at_def)
  have "dest s0 ! 0 = output_at src h k 0" by (simp add: s0_def state_at_def)
  then have 5: "dest s0 ! 0 = sort w ! k"
    using vf(5) by (simp add: output_at_sort w_at)
  have "w = rev (take h (drop 1 src)) @ take (h + 1) src \<and>
           state_after_passes src dest0 half_length rank 0 = Inr s0 \<and>
           window_iters s0 = map At (zip w [0..<2 * h + 1]) \<and>
           sorted_window s0 = sort (zip w [0..<2 * h + 1]) \<and>
           rank_point s0 = At (sorted_window s0 ! k) \<and>
           dest s0 ! 0 = sort w ! k"
    using 1 2 3 4 5 w_def by simp
  then show ?thesis unfolding h_def k_def by (intro exI)
qed

theorem initial_window_contents_witness:
  "valid_input [3, - 1, 0, - 3, 2, - 4, 1, 5, - 2, 4, 6 :: int] [0, 0, 0, 0, 0, 0, 0, 0, 0, 0, 0] 5 (5404319552844595 / 2 ^ 55) \<and>
   valid_input [3, - 1, 0, - 3, 2, - 4, 1, 5, - 2, 4, 6 :: int] [0, 0, 0, 0, 0, 0, 0, 0, 0, 0, 0] 5 (1 / 8) \<and>
   in_memory [3, - 1, 0, - 3, 2, - 4, 1, 5, - 2, 4, 6 :: int] 5 \<and>
   (\<exists>s0. state_after_passes [3, - 1, 0, - 3, 2, - 4, 1, 5, - 2, 4, 6 :: int] [0, 0, 0, 0, 0, 0, 0, 0, 0, 0, 0] 5 (5404319552844595 / 2 ^ 55) 0 = Inr s0 \<and>
         window_iters s0 = [At (- 4, 0), At (2, 1), At (- 3, 2), At (0, 3), At (- 1, 4), At (3, 5),
                            At (- 1, 6), At (0, 7), At (- 3, 8), At (2, 9), At (- 4, 10)] \<and>
         rank_point s0 = At (- 3, 2) \<and>
         dest s0 ! 0 = - 3) \<and>
   (\<exists>s0. state_after_passes [3, - 1, 0, - 3, 2, - 4, 1, 5, - 2, 4, 6 :: int] [0, 0, 0, 0, 0, 0, 0, 0, 0, 0, 0] 5 (1 / 8) 0 = Inr s0 \<and>
         window_iters s0 = [At (- 4, 0), At (2, 1), At (- 3, 2), At (0, 3), At (- 1, 4), At (3, 5),
                            At (- 1, 6), At (0, 7), At (- 3, 8), At (2, 9), At (- 4, 10)] \<and>
         rank_point s0 = At (- 4, 10) \<and>
         dest s0 ! 0 = - 4)"
proof -
  have v: "valid_input [3, - 1, 0, - 3, 2, - 4, 1, 5, - 2, 4, 6 :: int] [0, 0, 0, 0, 0, 0, 0, 0, 0, 0, 0] 5 (5404319552844595 / 2 ^ 55)"
    by (simp add: valid_input_def)
  have v': "valid_input [3, - 1, 0, - 3, 2, - 4, 1, 5, - 2, 4, 6 :: int] [0, 0, 0, 0, 0, 0, 0, 0, 0, 0, 0] 5 (1 / 8)"
    by (simp add: valid_input_def)
  have m: "in_memory [3, - 1, 0, - 3, 2, - 4, 1, 5, - 2, 4, 6 :: int] 5"
    by (simp add: in_memory_def deque_max_size_def)
  have k: "rank_pos_of (5404319552844595 / 2 ^ 55) (2 * unat (5 :: 64 word)) = 2"
    using rank_pos_of_15_100 by simp
  have k': "rank_pos_of (1 / 8) (2 * unat (5 :: 64 word)) = 1"
    using rank_pos_of_1_8 by simp
  have w: "rev (take (unat (5 :: 64 word)) (drop 1 [3, - 1, 0, - 3, 2, - 4, 1, 5, - 2, 4, 6 :: int]))
             @ take (unat (5 :: 64 word) + 1) [3, - 1, 0, - 3, 2, - 4, 1, 5, - 2, 4, 6]
           = [- 4, 2, - 3, 0, - 1, 3, - 1, 0, - 3, 2, - 4]"
    by simp
  have sw: "sort [- 4, 2, - 3, 0, - 1, 3, - 1, 0, - 3, 2, - 4 :: int]
              = [- 4, - 4, - 3, - 3, - 1, - 1, 0, 0, 2, 2, 3]" by simp
  have sz: "sort (zip [- 4, 2, - 3, 0, - 1, 3, - 1, 0, - 3, 2, - 4 :: int] [0..<11])
      = [(- 4, 0), (- 4, 10), (- 3, 2), (- 3, 8), (- 1, 4), (- 1, 6), (0, 3), (0, 7), (2, 1), (2, 9), (3, 5)]"
    by (simp add: upt_rec)
  have 1: "\<exists>s0. state_after_passes [3, - 1, 0, - 3, 2, - 4, 1, 5, - 2, 4, 6 :: int] [0, 0, 0, 0, 0, 0, 0, 0, 0, 0, 0] 5 (5404319552844595 / 2 ^ 55) 0 = Inr s0 \<and>
         window_iters s0 = [At (- 4, 0), At (2, 1), At (- 3, 2), At (0, 3), At (- 1, 4), At (3, 5),
                            At (- 1, 6), At (0, 7), At (- 3, 8), At (2, 9), At (- 4, 10)] \<and>
         rank_point s0 = At (- 3, 2) \<and>
         dest s0 ! 0 = - 3"
    using initial_window_contents [OF v m] unfolding k w sw by (auto simp: sz) (simp_all add: upt_rec)
  have 2: "\<exists>s0. state_after_passes [3, - 1, 0, - 3, 2, - 4, 1, 5, - 2, 4, 6 :: int] [0, 0, 0, 0, 0, 0, 0, 0, 0, 0, 0] 5 (1 / 8) 0 = Inr s0 \<and>
         window_iters s0 = [At (- 4, 0), At (2, 1), At (- 3, 2), At (0, 3), At (- 1, 4), At (3, 5),
                            At (- 1, 6), At (0, 7), At (- 3, 8), At (2, 9), At (- 4, 10)] \<and>
         rank_point s0 = At (- 4, 10) \<and>
         dest s0 ! 0 = - 4"
    using initial_window_contents [OF v' m] unfolding k' w sw by (auto simp: sz) (simp_all add: upt_rec)
  from v v' m 1 2 show ?thesis by (intro conjI)
qed

section \<open>Reversing the source\<close>

lemma reflect_mirror:
  assumes "0 < n" "- int (n - 1) \<le> x" "x \<le> 2 * int (n - 1)"
  shows "reflect n x < n" and "reflect n (int (n - 1) - x) = n - 1 - reflect n x"
  using assms by (auto simp: reflect_def)

lemma nth_window_at:
  assumes "j < 2 * h + 1"
  shows "window_at src h q ! j = src ! reflect (length src) (int q + int j - int h)"
  using assms unfolding window_at_def by (simp del: upt_Suc)

lemma window_at_rev:
  assumes h: "h + 1 \<le> length src" and p: "p < length src"
  shows "window_at (rev src) h p = rev (window_at src h (length src - 1 - p))"
proof (rule nth_equalityI)
  show "length (window_at (rev src) h p) = length (rev (window_at src h (length src - 1 - p)))"
    by (simp add: window_at_def)
  fix i assume "i < length (window_at (rev src) h p)"
  then have i: "i < 2 * h + 1" by (simp add: window_at_def)
  define n where "n = length src"
  define x where "x = int p + int i - int h"
  have n: "0 < n" using p unfolding n_def by arith
  have x: "- int (n - 1) \<le> x" "x \<le> 2 * int (n - 1)"
    using h p i by (simp_all add: x_def n_def)
  have "window_at (rev src) h p ! i = rev src ! reflect n x"
    using nth_window_at [OF i, of "rev src" p] by (simp add: n_def x_def)
  also have "\<dots> = src ! (n - 1 - reflect n x)"
    using reflect_mirror(1) [OF n x] by (simp add: rev_nth n_def)
  also have "\<dots> = src ! reflect n (int (n - 1) - x)"
    by (simp only: reflect_mirror(2) [OF n x])
  also have "int (n - 1) - x = int (n - 1 - p) + int (2 * h - i) - int h"
    using i p by (simp add: x_def n_def of_nat_diff)
  also have "src ! reflect n (int (n - 1 - p) + int (2 * h - i) - int h)
      = window_at src h (n - 1 - p) ! (2 * h - i)"
    unfolding n_def by (rule nth_window_at [symmetric]) simp
  also have "\<dots> = rev (window_at src h (n - 1 - p)) ! i"
    using i by (simp add: rev_nth length_window_at)
  finally show "window_at (rev src) h p ! i = rev (window_at src h (length src - 1 - p)) ! i"
    by (simp add: n_def)
qed

lemma sort_rev_eq:
  fixes xs :: "'b::linorder list"
  shows "sort (rev xs) = sort xs"
  by (rule sorted_mset_unique) simp_all

lemma rank_filter_spec_rev:
  fixes src :: "'a::linorder list"
  assumes h: "h + 1 \<le> length src"
  shows "rank_filter_spec (rev src) h rank = rev (rank_filter_spec src h rank)"
proof (rule nth_equalityI)
  show "length (rank_filter_spec (rev src) h rank) = length (rev (rank_filter_spec src h rank))"
    by (simp add: rank_filter_spec_def)
  fix p assume "p < length (rank_filter_spec (rev src) h rank)"
  then have p: "p < length src" by (simp add: rank_filter_spec_def)
  then have q: "length src - 1 - p < length src" by arith
  have "rank_filter_spec (rev src) h rank ! p
      = sort (window_at (rev src) h p) ! rank_pos_of rank (2 * h)"
    using p by (simp add: rank_filter_spec_def del: upt_Suc)
  also have "\<dots> = sort (window_at src h (length src - 1 - p)) ! rank_pos_of rank (2 * h)"
    by (simp only: window_at_rev [OF h p] sort_rev_eq)
  also have "\<dots> = rank_filter_spec src h rank ! (length src - 1 - p)"
    using q by (simp add: rank_filter_spec_def del: upt_Suc)
  also have "\<dots> = rev (rank_filter_spec src h rank) ! p"
    using p by (simp add: rev_nth rank_filter_spec_def)
  finally show "rank_filter_spec (rev src) h rank ! p = rev (rank_filter_spec src h rank) ! p" .
qed

text \<open>
  C7. Filtering the reversed source and reversing the \<open>|source|\<close> values stored gives
  the values stored when the source itself is filtered.
\<close>

theorem reflection_symmetry:
  fixes src :: "'a::{linorder,zero} list"
  assumes v: "valid_input src dest0 half_length rank" and m: "in_memory src half_length"
  shows "\<exists>out out'.
           lineRankOrderFilter1D src dest0 half_length rank = Inr out \<and>
           lineRankOrderFilter1D (rev src) dest0 half_length rank = Inr out' \<and>
           rev (take (length src) out') = take (length src) out"
proof -
  have v': "valid_input (rev src) dest0 half_length rank"
    using v by (simp add: valid_input_def)
  have m': "in_memory (rev src) half_length"
    using m by (simp add: in_memory_def)
  have len: "length (rank_filter_spec src (unat half_length) rank) = length src"
    by (simp add: rank_filter_spec_def)
  have "rank_filter_spec (rev src) (unat half_length) rank
      = rev (rank_filter_spec src (unat half_length) rank)"
    using valid_facts(1) [OF v m] by (rule rank_filter_spec_rev)
  then show ?thesis
    using filter_result [OF v m] filter_result [OF v' m'] len by simp
qed

theorem reflection_symmetry_witness:
  "valid_input [5, 3, 8, 1, 9, 2, 7 :: int] [0, 0, 0, 0, 0, 0, 0] 2 (1 / 4) \<and>
   in_memory [5, 3, 8, 1, 9, 2, 7 :: int] 2 \<and>
   (\<exists>out out'.
      lineRankOrderFilter1D [5, 3, 8, 1, 9, 2, 7 :: int] [0, 0, 0, 0, 0, 0, 0] 2 (1 / 4) = Inr out \<and>
      lineRankOrderFilter1D [7, 2, 9, 1, 8, 3, 5 :: int] [0, 0, 0, 0, 0, 0, 0] 2 (1 / 4) = Inr out' \<and>
      rev (take (length [5, 3, 8, 1, 9, 2, 7 :: int]) out') = take (length [5, 3, 8, 1, 9, 2, 7 :: int]) out)"
proof -
  have v: "valid_input [5, 3, 8, 1, 9, 2, 7 :: int] [0, 0, 0, 0, 0, 0, 0] 2 (1 / 4)"
    by (simp add: valid_input_def)
  have m: "in_memory [5, 3, 8, 1, 9, 2, 7 :: int] 2"
    by (simp add: in_memory_def deque_max_size_def)
  from reflection_symmetry [OF v m] show ?thesis using v m by simp
qed

section \<open>Termination of the loop\<close>

lemma length_filter_from:
  "length (filter (\<lambda>j. a \<le> j) [0..<b]) = b - a"
  by (induction b) (auto simp: Suc_diff_le)

lemma filter_upt_cong:
  assumes "\<And>j. j < b \<Longrightarrow> P j = Q j"
  shows "filter P [0..<b] = filter Q [0..<b]"
  using assms by (intro filter_cong) simp_all

text \<open>
  C8. The loop ends on every input that passes the checks. Before pass \<open>j + 1\<close> the
  source still has samples exactly when \<open>j < |source| - (half_length + 1)\<close>; the
  reflection counter starts at \<open>2 * half_length\<close>, stays there while the source lasts,
  is at least \<open>2\<close> whenever a pass reflects, goes down by \<open>2\<close> in each such pass and
  is \<open>0\<close> after pass \<open>|source| - 1\<close>, where the loop stops: \<open>half_length\<close> passes
  reflect.
\<close>

theorem roll_loop_terminates:
  fixes src :: "'a::{linorder,zero} list"
  assumes v: "valid_input src dest0 half_length rank" and m: "in_memory src half_length"
  shows "\<exists>s0 sN.
           state_after_passes src dest0 half_length rank 0 = Inr s0 \<and>
           window_reflect_pos s0 = 2 * unat half_length \<and>
           (\<forall>j<length src. \<exists>s.
              state_after_passes src dest0 half_length rank j = Inr s \<and>
              (src_not_empty s \<longleftrightarrow> j < length src - (unat half_length + 1)) \<and>
              window_reflect_pos s
                = 2 * unat half_length - 2 * (j - (length src - (unat half_length + 1))) \<and>
              (roll_cond s \<longleftrightarrow> j < length src - 1) \<and>
              (roll_cond s \<and> \<not> src_not_empty s \<longrightarrow> 2 \<le> window_reflect_pos s)) \<and>
           length (filter (\<lambda>j. case state_after_passes src dest0 half_length rank j of
                                  Inl e \<Rightarrow> False | Inr s \<Rightarrow> \<not> src_not_empty s)
                     [0..<length src - 1]) = unat half_length \<and>
           roll_loop src s0 = Inr sN \<and>
           state_after_passes src dest0 half_length rank (length src - 1) = Inr sN \<and>
           \<not> src_not_empty sN \<and> window_reflect_pos sN = 0"
proof -
  define h where "h = unat half_length"
  define k where "k = rank_pos_of rank (2 * unat half_length)"
  define st where "st = state_at src dest0 h k"
  note vf = valid_facts [OF v m, folded h_def k_def]
  have after: "\<And>p. p < length src \<Longrightarrow> state_after_passes src dest0 half_length rank p = Inr (st p)"
    unfolding st_def h_def k_def using v m by (rule state_after_passes_eq)
  have 1: "window_reflect_pos (st 0) = 2 * h"
    using vf(1) by (simp add: st_def state_at_def)
  have a: "src_not_empty (st j) \<longleftrightarrow> j < length src - (h + 1)" for j
    using vf(1) by (auto simp: st_def state_at_def)
  have 2: "\<exists>s. state_after_passes src dest0 half_length rank j = Inr s \<and>
              (src_not_empty s \<longleftrightarrow> j < length src - (h + 1)) \<and>
              window_reflect_pos s = 2 * h - 2 * (j - (length src - (h + 1))) \<and>
              (roll_cond s \<longleftrightarrow> j < length src - 1) \<and>
              (roll_cond s \<and> \<not> src_not_empty s \<longrightarrow> 2 \<le> window_reflect_pos s)"
    if j: "j < length src" for j
  proof -
    have b: "window_reflect_pos (st j) = 2 * h - 2 * (j - (length src - (h + 1)))"
      using vf(1) j by (simp add: st_def state_at_def)
    have c: "roll_cond (st j) \<longleftrightarrow> j < length src - 1"
      unfolding st_def using vf(1) j by (auto simp: roll_cond_state_at)
    have d: "roll_cond (st j) \<and> \<not> src_not_empty (st j) \<longrightarrow> 2 \<le> window_reflect_pos (st j)"
      unfolding a b c using vf(1) j by auto
    show ?thesis using after [OF j] a b c d by blast
  qed
  have "filter (\<lambda>j. case state_after_passes src dest0 half_length rank j of
                      Inl e \<Rightarrow> False | Inr s \<Rightarrow> \<not> src_not_empty s) [0..<length src - 1]
        = filter (\<lambda>j. length src - (h + 1) \<le> j) [0..<length src - 1]"
  proof (rule filter_upt_cong)
    fix j assume "j < length src - 1"
    then have "j < length src" by arith
    from after [OF this] show "(case state_after_passes src dest0 half_length rank j of
                      Inl e \<Rightarrow> False | Inr s \<Rightarrow> \<not> src_not_empty s) = (length src - (h + 1) \<le> j)"
      by (simp add: a not_less)
  qed
  then have 5: "length (filter (\<lambda>j. case state_after_passes src dest0 half_length rank j of
                      Inl e \<Rightarrow> False | Inr s \<Rightarrow> \<not> src_not_empty s) [0..<length src - 1]) = h"
    using vf(1) by (simp only: length_filter_from)
  have 3: "roll_loop src (st 0) = Inr (st (length src - 1))"
    unfolding st_def h_def k_def using v m by (rule roll_loop_after)
  have 4: "\<not> src_not_empty (st (length src - 1))" "window_reflect_pos (st (length src - 1)) = 0"
    using vf(1) by (auto simp: st_def state_at_def)
  have "state_after_passes src dest0 half_length rank 0 = Inr (st 0) \<and>
           window_reflect_pos (st 0) = 2 * h \<and>
           (\<forall>j<length src. \<exists>s.
              state_after_passes src dest0 half_length rank j = Inr s \<and>
              (src_not_empty s \<longleftrightarrow> j < length src - (h + 1)) \<and>
              window_reflect_pos s = 2 * h - 2 * (j - (length src - (h + 1))) \<and>
              (roll_cond s \<longleftrightarrow> j < length src - 1) \<and>
              (roll_cond s \<and> \<not> src_not_empty s \<longrightarrow> 2 \<le> window_reflect_pos s)) \<and>
           length (filter (\<lambda>j. case state_after_passes src dest0 half_length rank j of
                                  Inl e \<Rightarrow> False | Inr s \<Rightarrow> \<not> src_not_empty s)
                     [0..<length src - 1]) = h \<and>
           roll_loop src (st 0) = Inr (st (length src - 1)) \<and>
           state_after_passes src dest0 half_length rank (length src - 1) = Inr (st (length src - 1)) \<and>
           \<not> src_not_empty (st (length src - 1)) \<and> window_reflect_pos (st (length src - 1)) = 0"
    using after [OF vf(3)] after [OF vf(4)] 1 2 3 4 5 by blast
  then show ?thesis unfolding h_def by (intro exI)
qed

theorem roll_loop_terminates_witness:
  "valid_input [5, 3, 8, 1, 9, 2, 7 :: int] [0, 0, 0, 0, 0, 0, 0] 2 (1 / 2) \<and>
   in_memory [5, 3, 8, 1, 9, 2, 7 :: int] 2 \<and>
   (\<exists>s0 sN.
      state_after_passes [5, 3, 8, 1, 9, 2, 7 :: int] [0, 0, 0, 0, 0, 0, 0] 2 (1 / 2) 0 = Inr s0 \<and>
      window_reflect_pos s0 = 2 * unat (2 :: 64 word) \<and>
      roll_loop [5, 3, 8, 1, 9, 2, 7 :: int] s0 = Inr sN \<and>
      \<not> src_not_empty sN \<and> window_reflect_pos sN = 0)"
proof -
  have v: "valid_input [5, 3, 8, 1, 9, 2, 7 :: int] [0, 0, 0, 0, 0, 0, 0] 2 (1 / 2)"
    by (simp add: valid_input_def)
  have m: "in_memory [5, 3, 8, 1, 9, 2, 7 :: int] 2"
    by (simp add: in_memory_def deque_max_size_def)
  from roll_loop_terminates [OF v m] have
    "\<exists>(s0 :: int roll_state) sN.
      state_after_passes [5, 3, 8, 1, 9, 2, 7 :: int] [0, 0, 0, 0, 0, 0, 0] 2 (1 / 2) 0 = Inr s0 \<and>
      window_reflect_pos s0 = 2 * unat (2 :: 64 word) \<and>
      roll_loop [5, 3, 8, 1, 9, 2, 7 :: int] s0 = Inr sN \<and>
      \<not> src_not_empty sN \<and> window_reflect_pos sN = 0"
    by (elim exE conjE) (intro exI conjI, assumption+)
  then show ?thesis using v m by blast
qed

section \<open>The sizes of the window structures\<close>

text \<open>
  C9. After the initialisation and after every pass, the ordered window and the queue
  of iterators hold \<open>2 * half_length + 1\<close> entries each. The sequence indices in the
  ordered window are pairwise distinct and below the index the next pass assigns, so
  the insertion of the next pair into the window, or into any part of it, adds an
  element.
\<close>

theorem window_sizes_preserved:
  fixes src :: "'a::{linorder,zero} list"
  assumes v: "valid_input src dest0 half_length rank" and m: "in_memory src half_length"
    and p: "p < length src"
  shows "\<exists>s. state_after_passes src dest0 half_length rank p = Inr s \<and>
           length (sorted_window s) = 2 * unat half_length + 1 \<and>
           length (window_iters s) = 2 * unat half_length + 1 \<and>
           distinct (map snd (sorted_window s)) \<and>
           (\<forall>x\<in>set (sorted_window s). snd x < size_incr (values_seen s)) \<and>
           (\<forall>v xs. set xs \<subseteq> set (sorted_window s) \<longrightarrow>
              length (fst (set_insert (v, size_incr (values_seen s)) xs)) = length xs + 1)"
proof -
  define h where "h = unat half_length"
  define k where "k = rank_pos_of rank (2 * unat half_length)"
  define s where "s = state_at src dest0 h k p"
  have 1: "state_after_passes src dest0 half_length rank p = Inr s"
    unfolding s_def h_def k_def using v m p by (rule state_after_passes_eq)
  have sw: "sorted_window s = sort (slots src h p)" by (simp add: s_def state_at_def)
  have 2: "length (sorted_window s) = 2 * h + 1" by (simp add: sw)
  have 3: "length (window_iters s) = 2 * h + 1" by (simp add: s_def state_at_def)
  have "mset (map snd (sort (slots src h p))) = mset (map snd (slots src h p))" by simp
  moreover have "distinct (map snd (slots src h p))"
    by (simp add: slots_def distinct_map inj_on_def slot_index_inj o_def del: upt_Suc)
  ultimately have 4: "distinct (map snd (sorted_window s))"
    unfolding sw by (metis mset_eq_imp_distinct_iff)
  have "2 * h + 1 + p + 1 < (2::nat) ^ 64"
    using m p by (simp add: in_memory_def deque_max_size_def h_def)
  then have inc: "size_incr (values_seen s) = 2 * h + 1 + p + 1"
    by (simp add: s_def state_at_def size_incr_small)
  have 5: "\<forall>x\<in>set (sorted_window s). snd x < size_incr (values_seen s)"
    unfolding sw inc set_sort set_slots by (auto simp: slot_index_def)
  have 6: "\<forall>v xs. set xs \<subseteq> set (sorted_window s) \<longrightarrow>
              length (fst (set_insert (v, size_incr (values_seen s)) xs)) = length xs + 1"
  proof (intro allI impI)
    fix v :: 'a and xs assume sub: "set xs \<subseteq> set (sorted_window s)"
    have "(v, size_incr (values_seen s)) \<notin> set xs"
      using sub 5 by force
    then show "length (fst (set_insert (v, size_incr (values_seen s)) xs)) = length xs + 1"
      by (simp add: set_insert_def)
  qed
  have "state_after_passes src dest0 half_length rank p = Inr s \<and>
           length (sorted_window s) = 2 * h + 1 \<and>
           length (window_iters s) = 2 * h + 1 \<and>
           distinct (map snd (sorted_window s)) \<and>
           (\<forall>x\<in>set (sorted_window s). snd x < size_incr (values_seen s)) \<and>
           (\<forall>v xs. set xs \<subseteq> set (sorted_window s) \<longrightarrow>
              length (fst (set_insert (v, size_incr (values_seen s)) xs)) = length xs + 1)"
    using 1 2 3 4 5 6 by blast
  then show ?thesis unfolding h_def by (intro exI)
qed

theorem window_sizes_preserved_witness:
  "valid_input [4, 4, 4, 4, 4 :: int] [0, 0, 0, 0, 0] 1 (1 / 2) \<and>
   in_memory [4, 4, 4, 4, 4 :: int] 1 \<and>
   (3::nat) < length [4, 4, 4, 4, 4 :: int] \<and>
   (\<exists>s. state_after_passes [4, 4, 4, 4, 4 :: int] [0, 0, 0, 0, 0] 1 (1 / 2) 3 = Inr s \<and>
        length (sorted_window s) = 2 * unat (1 :: 64 word) + 1 \<and>
        length (window_iters s) = 2 * unat (1 :: 64 word) + 1 \<and>
        distinct (map snd (sorted_window s)))"
proof -
  have v: "valid_input [4, 4, 4, 4, 4 :: int] [0, 0, 0, 0, 0] 1 (1 / 2)"
    by (simp add: valid_input_def)
  have m: "in_memory [4, 4, 4, 4, 4 :: int] 1"
    by (simp add: in_memory_def deque_max_size_def)
  have p: "(3::nat) < length [4, 4, 4, 4, 4 :: int]" by simp
  from window_sizes_preserved [OF v m p] have
    "\<exists>s :: int roll_state.
        state_after_passes [4, 4, 4, 4, 4 :: int] [0, 0, 0, 0, 0] 1 (1 / 2) 3 = Inr s \<and>
        length (sorted_window s) = 2 * unat (1 :: 64 word) + 1 \<and>
        length (window_iters s) = 2 * unat (1 :: 64 word) + 1 \<and>
        distinct (map snd (sorted_window s))"
    by (elim exE conjE) (intro exI conjI, assumption+)
  then show ?thesis using v m p by blast
qed

section \<open>The reported failures\<close>

text \<open>
  As long as \<^verbatim>\<open>half_length + 1\<close> does not wrap around, and the source is short enough
  for its windows to fit a deque, a call fails exactly when one of the three
  preconditions is violated.
\<close>

lemma unat_succ:
  fixes w :: "64 word"
  assumes "w \<noteq> - 1"
  shows "unat (w + 1) = unat w + 1"
proof -
  have "1 + w \<noteq> 0" using assms by (simp add: add_eq_0_iff)
  then have "unat (1 + w) = Suc (unat w)" by (rule unatSuc)
  then show ?thesis by (simp add: add.commute)
qed

lemma reported_failures:
  fixes src :: "'a::{linorder,zero} list"
  assumes "half_length \<noteq> - 1" and "length src \<le> 2 ^ 52"
  shows "(\<exists>e. lineRankOrderFilter1D src dest0 half_length rank = Inl e)
           \<longleftrightarrow> \<not> valid_input src dest0 half_length rank"
proof (cases "valid_input src dest0 half_length rank")
  case True
  then have "unat half_length + 1 \<le> length src" by (simp add: valid_input_def)
  with assms(2) have "in_memory src half_length"
    by (simp add: in_memory_def deque_max_size_def)
  with True show ?thesis by (simp add: filter_result)
next
  case False
  have "unat (half_length + 1) = unat half_length + 1" using assms(1) by (rule unat_succ)
  with False show ?thesis
    by (auto simp: lineRankOrderFilter1D_def valid_input_def Let_def)
qed

text \<open>
  C6. The claim is that a call fails exactly on a violation of one of the three
  preconditions, that the checks come first, and that nothing fails once they have
  passed. For \<^verbatim>\<open>half_length = SIZE_MAX\<close> the sum \<^verbatim>\<open>half_length + 1\<close> is \<open>0\<close>, the
  window check passes on every source, and the call fails afterwards, when the deque
  of \<^verbatim>\<open>SIZE_MAX\<close> iterators is created.
\<close>

theorem window_check_wraps:
  "length [1 :: int] < unat (18446744073709551615 :: 64 word) + 1 \<and>
   lineRankOrderFilter1D [1 :: int] [0] 18446744073709551615 (1 / 2) = Inl LengthError"
  by (simp add: lineRankOrderFilter1D_def initial_state_def deque_create_def deque_max_size_def)

end
